theory Spec2Isabelle
  imports Complex_Main "HOL-Library.Word"
begin

unbundle bit_operations_syntax

section \<open>Radiance HDR: scanline decoding\<close>

text \<open>
  A \<open>Uint8Array\<close> is a list of bytes. The scanline decoder of \<open>hdr/decode.ts\<close> either
  returns the next read offset (and the filled buffer) or throws. Two different throws can
  leave it: the explicit \<open>Error('Unexpected end of HDR ...')\<close> of the source, and the
  \<open>RangeError\<close> that the runtime raises when \<open>TypedArray.prototype.set\<close> is given a source
  that does not fit behind the target offset.
\<close>

type_synonym byte = "8 word"

datatype hdr_error = UnexpectedEof | RangeError

text \<open>\<open>bytes.slice(a, b)\<close> for \<open>a \<le> b\<close>; the end is clamped to the length, as in JS.\<close>

definition slice :: "'a list \<Rightarrow> nat \<Rightarrow> nat \<Rightarrow> 'a list" where
  "slice xs a b = take (b - a) (drop a xs)"

text \<open>\<open>out.fill(v, a, b)\<close>: both ends are clamped to the length, nothing is thrown.\<close>

definition fill :: "'a list \<Rightarrow> 'a \<Rightarrow> nat \<Rightarrow> nat \<Rightarrow> 'a list" where
  "fill out v a b =
     (let a' = min a (length out); b' = min b (length out)
      in take a' out @ replicate (b' - a') v @ drop (max a' b') out)"

text \<open>\<open>out.set(src, x)\<close>: throws a RangeError when \<open>src\<close> does not fit at offset \<open>x\<close>.\<close>

definition set_at :: "'a list \<Rightarrow> 'a list \<Rightarrow> nat \<Rightarrow> hdr_error + 'a list" where
  "set_at out src x =
     (if x + length src > length out then Inl RangeError
      else Inr (take x out @ src @ drop (x + length src) out))"

text \<open>
  \<open>decodeOldPixels\<close>: \<open>width\<close> raw RGBE quads are copied into the scanline buffer.
\<close>

definition decodeOldPixels ::
  "byte list \<Rightarrow> nat \<Rightarrow> nat \<Rightarrow> byte list \<Rightarrow> hdr_error + nat \<times> byte list" where
  "decodeOldPixels bytes offset width out =
     (let needed = width * 4; end = offset + needed
      in if end > length bytes then Inl UnexpectedEof
         else case set_at out (slice bytes offset end) 0 of
                Inl e \<Rightarrow> Inl e
              | Inr out' \<Rightarrow> Inr (end, out'))"

text \<open>
  One iteration of the \<open>while (x < width)\<close> loop of \<open>decodeRLEChannel\<close>, entered with
  \<open>x < width\<close>. The state is the pixel position \<open>x\<close>, the read offset \<open>off\<close> and the
  component plane \<open>out\<close>.
\<close>

definition rle_iter ::
  "byte list \<Rightarrow> nat \<Rightarrow> nat \<Rightarrow> byte list \<Rightarrow> hdr_error + nat \<times> nat \<times> byte list" where
  "rle_iter bytes x off out =
     (if off \<ge> length bytes then Inl UnexpectedEof
      else
        let count = unat (bytes ! off); off1 = off + 1 in
        if count > 128 then
          (let run = count - 128 in
           if off1 \<ge> length bytes then Inl UnexpectedEof
           else
             let val = bytes ! off1; off2 = off1 + 1
             in Inr (x + run, off2, fill out val x (x + run)))
        else if count > 0 then
          (let run = count; end = off1 + run in
           if end > length bytes then Inl UnexpectedEof
           else case set_at out (slice bytes off1 end) x of
                  Inl e \<Rightarrow> Inl e
                | Inr out' \<Rightarrow> Inr (x + run, end, out'))
        else Inr (x, off1, out))"

text \<open>
  The loop itself. Nothing in its shape bounds the number of iterations, so it is a partial
  function: \<open>None\<close> would be a run that never returns.
\<close>

partial_function (option) rle_loop ::
  "byte list \<Rightarrow> nat \<Rightarrow> nat \<Rightarrow> nat \<Rightarrow> byte list \<Rightarrow> (hdr_error + nat \<times> byte list) option" where
  "rle_loop bytes width x off out =
     (if x < width then
        (case rle_iter bytes x off out of
           Inl e \<Rightarrow> Some (Inl e)
         | Inr (x', off', out') \<Rightarrow> rle_loop bytes width x' off' out')
      else Some (Inr (off, out)))"

definition decodeRLEChannel ::
  "byte list \<Rightarrow> nat \<Rightarrow> nat \<Rightarrow> byte list \<Rightarrow> (hdr_error + nat \<times> byte list) option" where
  "decodeRLEChannel bytes offset width out = rle_loop bytes width 0 offset out"

text \<open>Sequencing of steps that may throw (\<open>Inl\<close>) or, a priori, not return (\<open>None\<close>).\<close>

definition and_then ::
  "('e + 'a) option \<Rightarrow> ('a \<Rightarrow> ('e + 'b) option) \<Rightarrow> ('e + 'b) option" where
  "and_then m f = (case m of None \<Rightarrow> None | Some (Inl e) \<Rightarrow> Some (Inl e) | Some (Inr v) \<Rightarrow> f v)"

text \<open>
  \<open>decodeScanline\<close>. The four \<open>subarray\<close> views are the four quarters of the scanline
  buffer, which the caller allocates with \<open>width * 4\<close> bytes; the planes are decoded one
  after the other and written back in place.
\<close>

definition decodeScanline ::
  "byte list \<Rightarrow> nat \<Rightarrow> nat \<Rightarrow> byte list \<Rightarrow> (hdr_error + nat \<times> byte list) option" where
  "decodeScanline bytes offset width scanline =
     (if width < 8 \<or> width > 0x7fff then Some (decodeOldPixels bytes offset width scanline)
      else if offset + 4 > length bytes then Some (Inl UnexpectedEof)
      else
        let b0 = bytes ! offset; b1 = bytes ! (offset + 1);
            b2 = bytes ! (offset + 2); b3 = bytes ! (offset + 3);
            rleWidth = push_bit 8 (unat b2) OR unat b3;
            isRle = (b0 = 2 \<and> b1 = 2 \<and> rleWidth = width)
        in if \<not> isRle then Some (decodeOldPixels bytes offset width scanline)
           else
             let off = offset + 4;
                 r = slice scanline 0 width;
                 g = slice scanline width (width * 2);
                 b = slice scanline (width * 2) (width * 3);
                 e = slice scanline (width * 3) (width * 4)
             in and_then (decodeRLEChannel bytes off width r) (\<lambda>(off, r').
                and_then (decodeRLEChannel bytes off width g) (\<lambda>(off, g').
                and_then (decodeRLEChannel bytes off width b) (\<lambda>(off, b').
                and_then (decodeRLEChannel bytes off width e) (\<lambda>(off, e').
                  Some (Inr (off, r' @ g' @ b' @ e')))))))"

section \<open>JavaScript numbers\<close>

text \<open>
  A JavaScript number is an IEEE binary64 value. The finite ones are rationals; an arithmetic
  operation returns the exact result rounded to the nearest double, ties to the even
  significand. \<open>fl\<close> is that rounding for results in the normal range of binary64, where
  every result of the computations modelled below lies (they multiply and divide positive
  integers below \<open>2 ^ 53\<close>): a positive \<open>q\<close> with \<open>2 ^ e \<le> q < 2 ^ (e + 1)\<close> is rounded to
  a multiple of \<open>2 ^ (e - 52)\<close>.
\<close>

fun log2n :: "nat \<Rightarrow> nat" where
  "log2n n = (if n < 2 then 0 else Suc (log2n (n div 2)))"

declare log2n.simps [simp del]

definition exponent2 :: "rat \<Rightarrow> int" where
  "exponent2 q =
     (if 1 \<le> q then int (log2n (nat \<lfloor>q\<rfloor>))
      else - int (Suc (log2n (nat (\<lceil>1 / q\<rceil> - 1)))))"

definition round_even :: "rat \<Rightarrow> int" where
  "round_even q =
     (let f = \<lfloor>q\<rfloor>; d = q - of_int f
      in if d < 1 / 2 then f else if 1 / 2 < d then f + 1 else if even f then f else f + 1)"

definition fl :: "rat \<Rightarrow> rat" where
  "fl q =
     (if q = 0 then 0
      else
        let a = \<bar>q\<bar>; e = exponent2 a; m = round_even (a * 2 powi (52 - e))
        in sgn q * of_int m * 2 powi (e - 52))"

text \<open>The operators \<open>*\<close> and \<open>/\<close> on numbers, \<open>Math.floor\<close> and \<open>Math.round\<close>.\<close>

definition js_mul :: "rat \<Rightarrow> rat \<Rightarrow> rat" where
  "js_mul a b = fl (a * b)"

definition js_div :: "rat \<Rightarrow> rat \<Rightarrow> rat" where
  "js_div a b = fl (a / b)"

definition Math_floor :: "rat \<Rightarrow> int" where
  "Math_floor q = \<lfloor>q\<rfloor>"

definition Math_round :: "rat \<Rightarrow> int" where
  "Math_round q = \<lfloor>q + 1 / 2\<rfloor>"

section \<open>Radiance HDR: header and resolution line\<close>

text \<open>
  The header is text. \<open>TextDecoder\<close> maps every byte below 128 to the character with that
  code, so a header of ASCII bytes is the \<open>string\<close> of its bytes; the functions below read
  the buffer as such a string. White space is what \<open>String.prototype.trim\<close> and the regular
  expression \<open>\s\<close> take for white space among the ASCII characters: tab, line feed,
  vertical tab, form feed, carriage return and space.
\<close>

definition newline :: char where
  "newline = CHR 0x0A"

definition is_ws :: "char \<Rightarrow> bool" where
  "is_ws c = (c \<in> {CHR 0x09, CHR 0x0A, CHR 0x0B, CHR 0x0C, CHR 0x0D, CHR 0x20})"

definition trim :: "string \<Rightarrow> string" where
  "trim s = rev (dropWhile is_ws (rev (dropWhile is_ws s)))"

definition startsWith :: "string \<Rightarrow> string \<Rightarrow> bool" where
  "startsWith s p = (take (length p) s = p)"

fun includes_str :: "string \<Rightarrow> string \<Rightarrow> bool" where
  "includes_str [] p = (p = [])"
| "includes_str (c # s) p = (startsWith (c # s) p \<or> includes_str s p)"

text \<open>
  \<open>new TextDecoder().decode(bytes)\<close>: a leading UTF-8 byte order mark is dropped. ASCII
  bytes are decoded to themselves and no other bytes are decoded to ASCII characters, so
  tests against ASCII text can be made on the bytes; the other bytes are left as they are.
\<close>

definition TextDecoder_decode :: "string \<Rightarrow> string" where
  "TextDecoder_decode bytes =
     (if take 3 bytes = [CHR 0xEF, CHR 0xBB, CHR 0xBF] then drop 3 bytes else bytes)"

definition ascii :: "string \<Rightarrow> bool" where
  "ascii s = list_all (\<lambda>c. (of_char c :: nat) < 128) s"

text \<open>\<open>readLine\<close>: the line from \<open>offset\<close> up to the next line feed, and where to go on.\<close>

definition readLine :: "string \<Rightarrow> nat \<Rightarrow> string \<times> nat" where
  "readLine bytes offset =
     (let end = offset + length (takeWhile (\<lambda>c. c \<noteq> newline) (drop offset bytes))
      in (TextDecoder_decode (slice bytes offset end), min (length bytes) (end + 1)))"

text \<open>
  \<open>s.split(/\s+/)\<close>: the pieces between maximal runs of white space; a run at either end
  leaves an empty piece there, and the empty string splits into one empty piece.
\<close>

lemma split_ws_shorter:
  assumes "dropWhile (\<lambda>c. \<not> is_ws c) s \<noteq> []"
  shows "length (dropWhile is_ws (dropWhile (\<lambda>c. \<not> is_ws c) s)) < length s"
proof -
  obtain c cs where cs: "dropWhile (\<lambda>c. \<not> is_ws c) s = c # cs"
    using assms by (cases "dropWhile (\<lambda>c. \<not> is_ws c) s") auto
  then have "is_ws c" using hd_dropWhile [OF assms] by simp
  then have "length (dropWhile is_ws (c # cs)) \<le> length cs"
    by (simp add: length_dropWhile_le)
  also have "length cs < length (dropWhile (\<lambda>c. \<not> is_ws c) s)" using cs by simp
  also have "\<dots> \<le> length s" by (rule length_dropWhile_le)
  finally show ?thesis using cs by simp
qed

function split_ws :: "string \<Rightarrow> string list" where
  "split_ws s =
     (let tok = takeWhile (\<lambda>c. \<not> is_ws c) s; rest = dropWhile (\<lambda>c. \<not> is_ws c) s
      in if rest = [] then [tok] else tok # split_ws (dropWhile is_ws rest))"
  by pat_completeness auto
termination
  by (relation "measure length") (auto simp: split_ws_shorter)

declare split_ws.simps [simp del]

text \<open>
  \<open>Number.parseInt(s, 10)\<close> on a piece without leading white space: an optional sign, then
  the longest run of decimal digits; \<open>NaN\<close> when there is none, whatever follows the digits
  is ignored. The result is a double: the integer itself below \<open>2 ^ 53\<close>, the nearest
  double above, and \<open>Infinity\<close> from the overflow threshold of binary64 on. \<open>None\<close> stands
  for the two results that \<open>Number.isFinite\<close> rejects.
\<close>

definition is_digit :: "char \<Rightarrow> bool" where
  "is_digit c = (48 \<le> (of_char c :: nat) \<and> (of_char c :: nat) \<le> 57)"

definition digits_value :: "string \<Rightarrow> int" where
  "digits_value ds = foldl (\<lambda>acc c. acc * 10 + (of_char c - 48)) 0 ds"

definition parseInt10 :: "string \<Rightarrow> int option" where
  "parseInt10 s =
     (let (neg, r) =
            (case s of
               [] \<Rightarrow> (False, s)
             | c # cs \<Rightarrow>
                 if c = CHR ''-'' then (True, cs)
                 else if c = CHR ''+'' then (False, cs) else (False, s));
          ds = takeWhile is_digit r
      in if ds = [] then None
         else
           let v = digits_value ds;
               d = (if v < 2 ^ 53 then v else \<lfloor>fl (of_int v)\<rfloor>)
           in if 2 ^ 1024 - 2 ^ 970 \<le> v then None
              else Some (if neg then - d else d))"

datatype y_sign = MinusY | PlusY

datatype x_sign = PlusX | MinusX

record resolution =
  res_width :: int
  res_height :: int
  res_ySign :: y_sign
  res_xSign :: x_sign

definition parseResolution :: "string \<Rightarrow> resolution option" where
  "parseResolution line =
     (let parts = split_ws (trim line) in
      if length parts \<noteq> 4 then None
      else
        let ySign = parts ! 0; yStr = parts ! 1; xSign = parts ! 2; xStr = parts ! 3 in
        if ySign = [] \<or> xSign = [] \<or> yStr = [] \<or> xStr = [] then None
        else
          case (parseInt10 yStr, parseInt10 xStr) of
            (Some height, Some width) \<Rightarrow>
              if width \<le> 0 \<or> height \<le> 0 then None
              else if ySign \<noteq> ''-Y'' \<and> ySign \<noteq> ''+Y'' then None
              else if xSign \<noteq> ''+X'' \<and> xSign \<noteq> ''-X'' then None
              else Some \<lparr>res_width = width, res_height = height,
                         res_ySign = (if ySign = ''-Y'' then MinusY else PlusY),
                         res_xSign = (if xSign = ''+X'' then PlusX else MinusX)\<rparr>
          | _ \<Rightarrow> None)"

text \<open>
  The header loop of \<open>readHDRMetadata\<close> (the same loop opens \<open>decodeHDRToFloatRGB\<close>). It
  returns the flag \<open>formatOk\<close>, the resolution if a blank line was reached, and the offset
  behind the lines it has read.
\<close>

datatype header_error = InvalidResolution | UnsupportedFormat | MissingResolution

text \<open>What one header line does to \<open>formatOk\<close>.\<close>

definition format_flag :: "bool \<Rightarrow> string \<Rightarrow> bool" where
  "format_flag formatOk line =
     (if startsWith line ''FORMAT='' then trim line = ''FORMAT=32-bit_rle_rgbe''
      else formatOk)"

function header_loop ::
  "string \<Rightarrow> nat \<Rightarrow> bool \<Rightarrow> header_error + bool \<times> resolution option \<times> nat" where
  "header_loop bytes offset formatOk =
     (if offset < length bytes then
        let (line, next) = readLine bytes offset;
            formatOk' = format_flag formatOk line
        in if trim line = [] then
             (let (resLine, next2) = readLine bytes next
              in case parseResolution resLine of
                   None \<Rightarrow> Inl InvalidResolution
                 | Some res \<Rightarrow> Inr (formatOk', Some res, next2))
           else header_loop bytes next formatOk'
      else Inr (formatOk, None, offset))"
  by pat_completeness auto
termination
  by (relation "measure (\<lambda>(bytes, offset, formatOk). length bytes - offset)")
    (auto simp: readLine_def Let_def)

declare header_loop.simps [simp del]

definition readHDRMetadata :: "string \<Rightarrow> header_error + int \<times> int" where
  "readHDRMetadata buffer =
     (case header_loop buffer 0 False of
        Inl e \<Rightarrow> Inl e
      | Inr (formatOk, resolution, offset) \<Rightarrow>
          if \<not> formatOk then Inl UnsupportedFormat
          else case resolution of
                 None \<Rightarrow> Inl MissingResolution
               | Some res \<Rightarrow> Inr (res_width res, res_height res))"

section \<open>Validation pre-check\<close>

datatype PanoramaFormat = Hdr | Exr

datatype validation_error =
  InvalidHdrSignature | UnsupportedHdrFormat | InvalidExrHeader | InvalidExrSignature

definition HDR_SIGNATURE :: string where
  "HDR_SIGNATURE = ''#?RADIANCE''"

text \<open>\<open>view.getUint32(0, true)\<close> on a buffer of at least four bytes.\<close>

definition getUint32LE :: "string \<Rightarrow> nat \<Rightarrow> nat" where
  "getUint32LE b i =
     of_char (b ! i) + 256 * of_char (b ! (i + 1)) + 65536 * of_char (b ! (i + 2))
       + 16777216 * of_char (b ! (i + 3))"

definition validatePanoramaBuffer :: "PanoramaFormat \<Rightarrow> string \<Rightarrow> validation_error + unit" where
  "validatePanoramaBuffer format buffer =
     (if format = Hdr then
        (let text = TextDecoder_decode (slice buffer 0 4096) in
         if \<not> startsWith text HDR_SIGNATURE then Inl InvalidHdrSignature
         else if \<not> includes_str text ''FORMAT=32-bit_rle_rgbe'' then Inl UnsupportedHdrFormat
         else Inr ())
      else if length buffer < 8 then Inl InvalidExrHeader
      else if getUint32LE buffer 0 \<noteq> 20000630 then Inl InvalidExrSignature
      else Inr ())"

section \<open>Decode size policy and nearest-neighbour column mapping\<close>

datatype PanoramaDecodeQuality = Low | Medium | High

record PanoramaMetadata =
  meta_format :: PanoramaFormat
  meta_width :: int
  meta_height :: int

definition chooseDecodeMaxDim :: "PanoramaDecodeQuality \<Rightarrow> int \<Rightarrow> int" where
  "chooseDecodeMaxDim quality maxTextureSize =
     (let base = (if quality = Low then 1024 else if quality = Medium then 2048 else 4096)
      in max 256 (min base maxTextureSize))"

definition computeDecodeSize ::
  "PanoramaMetadata \<Rightarrow> PanoramaDecodeQuality \<Rightarrow> int \<Rightarrow> int \<times> int" where
  "computeDecodeSize meta quality maxTextureSize =
     (let maxDim = chooseDecodeMaxDim quality maxTextureSize;
          srcMax = max (meta_width meta) (meta_height meta);
          scale = (if srcMax > maxDim then js_div (of_int maxDim) (of_int srcMax) else 1);
          decodeWidth = max 1 (Math_round (js_mul (of_int (meta_width meta)) scale));
          decodeHeight = max 1 (Math_round (js_mul (of_int (meta_height meta)) scale))
      in (decodeWidth, decodeHeight))"

text \<open>
  The index \<open>idx\<close> that the inner loop of \<open>decodeHDRToFloatRGB\<close> computes for output
  column \<open>x\<close>.
\<close>

definition scanline_index :: "int \<Rightarrow> int \<Rightarrow> x_sign \<Rightarrow> int \<Rightarrow> int" where
  "scanline_index width decodeWidth xSign x =
     (let stepX = js_div (of_int width) (of_int decodeWidth);
          srcX = min (width - 1) (Math_floor (js_mul (of_int x) stepX));
          idx = (if xSign = PlusX then srcX else width - 1 - srcX)
      in idx)"

text \<open>
  \<open>rgbeToLinear\<close>. For bytes, \<open>r + 0.5\<close> has at most nine bits and \<open>Math.pow(2, e - 136)\<close> is
  a power of two between \<open>2 ^ -135\<close> and \<open>2 ^ 119\<close>: the products are exact as doubles, and
  exact again as the \<open>float32\<close> that the output array stores.
\<close>

definition rgbeToLinear :: "byte \<Rightarrow> byte \<Rightarrow> byte \<Rightarrow> byte \<Rightarrow> rat \<times> rat \<times> rat" where
  "rgbeToLinear r g b e =
     (if e = 0 then (0, 0, 0)
      else
        let scale = 2 powi (int (unat e) - 136)
        in ((of_nat (unat r) + 1 / 2) * scale, (of_nat (unat g) + 1 / 2) * scale,
            (of_nat (unat b) + 1 / 2) * scale))"

text \<open>
  The body of the inner loop for output column \<open>x\<close>: the four reads \<open>scanline[idx]\<close>,
  \<open>scanline[idx + width]\<close>, \<open>scanline[idx + width * 2]\<close>, \<open>scanline[idx + width * 3]\<close> of the
  decoded scanline, and the texel that is written to \<open>out\<close> at \<open>outRowBase + x * 3\<close>. A
  read outside the scanline is \<open>undefined\<close>, here \<open>None\<close>.
\<close>

definition scanline_at :: "byte list \<Rightarrow> int \<Rightarrow> byte option" where
  "scanline_at scanline i =
     (if 0 \<le> i \<and> i < int (length scanline) then Some (scanline ! nat i) else None)"

definition hdr_texel :: "byte list \<Rightarrow> int \<Rightarrow> int \<Rightarrow> x_sign \<Rightarrow> int \<Rightarrow> (rat \<times> rat \<times> rat) option" where
  "hdr_texel scanline width decodeWidth xSign x =
     (let idx = scanline_index width decodeWidth xSign x
      in case (scanline_at scanline idx, scanline_at scanline (idx + width),
               scanline_at scanline (idx + width * 2), scanline_at scanline (idx + width * 3)) of
           (Some r8, Some g8, Some b8, Some e8) \<Rightarrow> Some (rgbeToLinear r8 g8 b8 e8)
         | _ \<Rightarrow> None)"

text \<open>
  One pass of the loop over \<open>fileY\<close> for a row that is selected: \<open>decodeScanline\<close> fills the
  scanline buffer and moves the offset, then the loop over \<open>x\<close> produces the
  \<open>decodeWidth\<close> texels of the output row (the same for every target row of the list).
\<close>

definition hdr_row ::
  "byte list \<Rightarrow> nat \<Rightarrow> int \<Rightarrow> byte list \<Rightarrow> int \<Rightarrow> x_sign
     \<Rightarrow> (hdr_error + nat \<times> byte list \<times> (rat \<times> rat \<times> rat) option list) option" where
  "hdr_row bytes offset width scanline decodeWidth xSign =
     (case decodeScanline bytes offset (nat width) scanline of
        None \<Rightarrow> None
      | Some (Inl e) \<Rightarrow> Some (Inl e)
      | Some (Inr (offset', scanline')) \<Rightarrow>
          Some (Inr (offset', scanline',
            map (\<lambda>x. hdr_texel scanline' width decodeWidth xSign (int x)) [0..<nat decodeWidth])))"

text \<open>
  For comparison, the pixels of a row as the file stores them. A run-length encoded row
  starts with the bytes 2, 2 and its width in two bytes, for a width from 8 to 32767; the
  red, green, blue and exponent planes follow, each run-length encoded; source column \<open>c\<close>
  of the row is the \<open>c\<close>-th byte of each plane. Any other row is stored flat, four bytes for
  each column.
\<close>

definition is_rle_row :: "byte list \<Rightarrow> nat \<Rightarrow> nat \<Rightarrow> bool" where
  "is_rle_row bytes offset width =
     (8 \<le> width \<and> width \<le> 32767 \<and> offset + 4 \<le> length bytes \<and>
      bytes ! offset = 2 \<and> bytes ! (offset + 1) = 2 \<and>
      unat (bytes ! (offset + 2)) * 256 + unat (bytes ! (offset + 3)) = width)"

definition rle_plane :: "byte list \<Rightarrow> nat \<Rightarrow> nat \<Rightarrow> (nat \<times> byte list) option" where
  "rle_plane bytes offset width =
     (case decodeRLEChannel bytes offset width (replicate width 0) of
        Some (Inr (offset', plane)) \<Rightarrow> Some (offset', plane)
      | _ \<Rightarrow> None)"

definition rle_row_planes ::
  "byte list \<Rightarrow> nat \<Rightarrow> nat \<Rightarrow> (byte list \<times> byte list \<times> byte list \<times> byte list) option" where
  "rle_row_planes bytes offset width =
     (case rle_plane bytes (offset + 4) width of None \<Rightarrow> None | Some (o1, r) \<Rightarrow>
      case rle_plane bytes o1 width of None \<Rightarrow> None | Some (o2, g) \<Rightarrow>
      case rle_plane bytes o2 width of None \<Rightarrow> None | Some (o3, b) \<Rightarrow>
      case rle_plane bytes o3 width of None \<Rightarrow> None | Some (o4, e) \<Rightarrow> Some (r, g, b, e))"

definition source_pixel ::
  "byte list \<times> byte list \<times> byte list \<times> byte list \<Rightarrow> nat \<Rightarrow> rat \<times> rat \<times> rat" where
  "source_pixel planes c =
     (case planes of (r, g, b, e) \<Rightarrow> rgbeToLinear (r ! c) (g ! c) (b ! c) (e ! c))"

definition flat_pixel :: "byte list \<Rightarrow> nat \<Rightarrow> nat \<Rightarrow> rat \<times> rat \<times> rat" where
  "flat_pixel bytes offset c =
     rgbeToLinear (bytes ! (offset + 4 * c)) (bytes ! (offset + 4 * c + 1))
       (bytes ! (offset + 4 * c + 2)) (bytes ! (offset + 4 * c + 3))"

section \<open>OpenEXR: channel selection\<close>

record EXRChannel =
  name :: string
  pixelType :: int
  xSampling :: int
  ySampling :: int


text \<open>\<open>s.lastIndexOf(c)\<close>, with \<open>None\<close> for \<open>-1\<close>.\<close>

definition lastIndexOf :: "string \<Rightarrow> char \<Rightarrow> nat option" where
  "lastIndexOf s c =
     (if c \<in> set s then Some (length s - 1 - length (takeWhile (\<lambda>d. d \<noteq> c) (rev s)))
      else None)"

definition splitChannelName :: "string \<Rightarrow> string \<times> string" where
  "splitChannelName nm =
     (case lastIndexOf nm (CHR ''.'') of
        None \<Rightarrow> ([], nm)
      | Some dot \<Rightarrow> (take dot nm, drop (dot + 1) nm))"











text \<open>
  The selection rule in the words of the specification, for comparison. The channels are
  split into layer and component; \<open>nrm\<close> is what is done to a component before it is
  compared with \<open>R\<close>, \<open>G\<close>, \<open>B\<close> and \<open>Y\<close>; a layer has a component if some channel of the
  layer carries it, and the first such channel counts.
\<close>

definition layer_of :: "EXRChannel \<Rightarrow> string" where
  "layer_of ch = fst (splitChannelName (name ch))"


definition first_seen_layers :: "EXRChannel list \<Rightarrow> string list" where
  "first_seen_layers channels = rev (remdups (rev (map layer_of channels)))"








section \<open>Decode orchestrator: the client of the worker\<close>

datatype ToneMappingMode = Reinhard | Aces | Linear

datatype PanoramaDecodeTarget = Rgb16f | Rgba8 rat ToneMappingMode rat

record PanoramaDecodeRequest =
  req_id :: string
  req_format :: PanoramaFormat
  req_buffer :: string
  req_quality :: PanoramaDecodeQuality
  req_maxTextureSize :: int
  req_target :: PanoramaDecodeTarget

text \<open>
  What the worker posts back: a result (its pixel data is left abstract, as a list of
  numbers) or an error; both carry the \<open>id\<close> of the request they answer.
\<close>

record PanoramaDecodeResult =
  result_id :: string
  result_format :: PanoramaFormat
  result_width :: int
  result_height :: int
  result_decodeWidth :: int
  result_decodeHeight :: int
  result_kind :: PanoramaDecodeTarget
  result_data :: "nat list"

datatype worker_message =
  ResultMessage PanoramaDecodeResult
| ErrorMessage string string

fun message_id :: "worker_message \<Rightarrow> string" where
  "message_id (ResultMessage r) = result_id r"
| "message_id (ErrorMessage i m) = i"

text \<open>
  A promise is a handle; it is settled at most once, by \<open>resolve\<close> or by \<open>reject\<close>, and
  later calls of either change nothing. The client is the table \<open>pending\<close> from ids to the
  handles of the promises it has returned, the settlements so far, and the trace of what
  it has done, in program order.
\<close>

datatype outcome = Resolved PanoramaDecodeResult | Rejected string

datatype effect =
  Reject nat string
| Resolve nat PanoramaDecodeResult
| PendingDelete string
| PendingSet string nat
| PendingClear
| PostMessage PanoramaDecodeRequest
| WorkerTerminate

record client =
  pending :: "string \<rightharpoonup> nat"
  settled :: "nat \<rightharpoonup> outcome"
  trace :: "effect list"
  next_promise :: nat

definition new_client :: client where
  "new_client = \<lparr>pending = Map.empty, settled = Map.empty, trace = [], next_promise = 0\<rparr>"

definition settle :: "nat \<Rightarrow> outcome \<Rightarrow> client \<Rightarrow> client" where
  "settle h out c =
     c\<lparr>settled := (if settled c h = None then (settled c)(h \<mapsto> out) else settled c),
       trace := trace c @ [case out of Resolved r \<Rightarrow> Resolve h r | Rejected m \<Rightarrow> Reject h m]\<rparr>"

definition pending_delete :: "string \<Rightarrow> client \<Rightarrow> client" where
  "pending_delete i c = c\<lparr>pending := (pending c)(i := None), trace := trace c @ [PendingDelete i]\<rparr>"

definition pending_set :: "string \<Rightarrow> nat \<Rightarrow> client \<Rightarrow> client" where
  "pending_set i h c = c\<lparr>pending := (pending c)(i \<mapsto> h), trace := trace c @ [PendingSet i h]\<rparr>"

definition post_message :: "PanoramaDecodeRequest \<Rightarrow> client \<Rightarrow> client" where
  "post_message request c = c\<lparr>trace := trace c @ [PostMessage request]\<rparr>"

text \<open>\<open>decode(request)\<close>: the promise it returns, and the client afterwards.\<close>

definition decode :: "client \<Rightarrow> PanoramaDecodeRequest \<Rightarrow> nat \<times> client" where
  "decode c request =
     (let c1 = (case pending c (req_id request) of
                  Some existing \<Rightarrow>
                    pending_delete (req_id request)
                      (settle existing (Rejected ''Decode request replaced'') c)
                | None \<Rightarrow> c);
          h = next_promise c1;
          c2 = c1\<lparr>next_promise := h + 1\<rparr>
      in (h, post_message request (pending_set (req_id request) h c2)))"

text \<open>The \<open>onmessage\<close> handler of the client.\<close>

definition onmessage :: "client \<Rightarrow> worker_message \<Rightarrow> client" where
  "onmessage c msg =
     (case pending c (message_id msg) of
        None \<Rightarrow> c
      | Some entry \<Rightarrow>
          (let c1 = pending_delete (message_id msg) c in
           case msg of
             ErrorMessage i m \<Rightarrow> settle entry (Rejected m) c1
           | ResultMessage r \<Rightarrow> settle entry (Resolved r) c1))"

text \<open>
  The worker answers a request whose decoding throws with an error message that carries
  the request's id and the text of the error (the \<open>catch\<close> branch of its handler).
\<close>

fun header_error_text :: "header_error \<Rightarrow> string" where
  "header_error_text InvalidResolution = ''Invalid HDR resolution''"
| "header_error_text UnsupportedFormat = ''Unsupported HDR format''"
| "header_error_text MissingResolution = ''Missing HDR resolution''"

definition worker_error_reply :: "PanoramaDecodeRequest \<Rightarrow> header_error \<Rightarrow> worker_message" where
  "worker_error_reply req e = ErrorMessage (req_id req) (header_error_text e)"

section \<open>Half-float codec\<close>

text \<open>
  The value of a JavaScript number, where it matters which one it is: a rational (\<open>Num 0\<close>
  is \<open>+0\<close>), negative zero, an infinity, or \<open>NaN\<close>.
\<close>

datatype number = Num rat | NegZero | PosInfinity | NegInfinity | NaN

text \<open>
  \<open>floatView[0] = value; x = intView[0]\<close> yields the bit pattern of the binary32 value
  nearest to \<open>value\<close>; \<open>floatToHalf\<close> is modelled on that pattern. \<open>float32_value\<close> is the
  number a pattern stands for: sign bit, 8 exponent bits with bias 127, 23 fraction bits.
\<close>

definition float32_value :: "32 word \<Rightarrow> number" where
  "float32_value x =
     (let sign = drop_bit 31 x AND 1; e = drop_bit 23 x AND 0xff; m = x AND 0x7fffff;
          sgn = (if sign \<noteq> 0 then - 1 else 1 :: rat)
      in if e = 255 then
           (if m \<noteq> 0 then NaN else if sign \<noteq> 0 then NegInfinity else PosInfinity)
         else if e = 0 then
           (if m = 0 then (if sign \<noteq> 0 then NegZero else Num 0)
            else Num (sgn * of_nat (unat m) * 2 powi (- 149)))
         else Num (sgn * (1 + of_nat (unat m) / 2 ^ 23) * 2 powi (int (unat e) - 127)))"

text \<open>
  \<open>floatToHalf\<close>. The bitwise operators work on 32-bit words; \<open>exp\<close> becomes negative and
  is an integer; the shift counts \<open>shift + 13\<close> and \<open>shift + 12\<close> lie between 13 and 23, so
  \<open>>>>\<close> takes them as they are; \<open>halfMantissa + roundBit\<close> is an addition of small
  numbers.
\<close>

definition floatToHalf :: "32 word \<Rightarrow> 32 word" where
  "floatToHalf x =
     (let sign = drop_bit 31 x AND 1;
          exp0 = drop_bit 23 x AND 0xff;
          mantissa = x AND 0x7fffff
      in if exp0 = 255 then
           (if mantissa \<noteq> 0 then push_bit 15 sign OR 0x7e00
            else push_bit 15 sign OR 0x7c00)
         else
           let exp = int (unat exp0) - 127 in
           if exp < - 14 then
             (if exp < - 24 then push_bit 15 sign
              else
                let mantissa = mantissa OR 0x800000;
                    shift = - exp - 14;
                    halfMantissa = drop_bit (nat (shift + 13)) mantissa;
                    roundBit = drop_bit (nat (shift + 12)) mantissa AND 1
                in push_bit 15 sign OR (halfMantissa + roundBit))
           else if exp > 15 then push_bit 15 sign OR 0x7c00
           else
             let halfExp = word_of_int (exp + 15) AND 0x1f;
                 halfMantissa = drop_bit 13 mantissa;
                 roundBit = drop_bit 12 mantissa AND 1
             in push_bit 15 sign OR push_bit 10 halfExp OR (halfMantissa + roundBit))"

text \<open>
  \<open>halfToFloat\<close>. Its products are powers of two times numbers of at most eleven bits,
  so the doubles it computes are the exact rationals.
\<close>

definition halfToFloat :: "32 word \<Rightarrow> number" where
  "halfToFloat half =
     (let sign = drop_bit 15 half AND 1;
          exp = drop_bit 10 half AND 0x1f;
          mantissa = half AND 0x3ff;
          sgn = (if sign \<noteq> 0 then - 1 else 1 :: rat)
      in if exp = 0 then
           (if mantissa = 0 then (if sign \<noteq> 0 then NegZero else Num 0)
            else Num (sgn * 2 powi (- 14) * (of_nat (unat mantissa) / 1024)))
         else if exp = 31 then
           (if mantissa = 0 then (if sign \<noteq> 0 then NegInfinity else PosInfinity) else NaN)
         else Num (sgn * 2 powi (int (unat exp) - 15) * (1 + of_nat (unat mantissa) / 1024)))"

text \<open>The fields of a binary32 pattern and of a binary16 pattern, read as numbers.\<close>

definition f32_sign :: "32 word \<Rightarrow> nat" where
  "f32_sign x = unat x div 2 ^ 31"

definition f32_exp :: "32 word \<Rightarrow> nat" where
  "f32_exp x = unat x div 2 ^ 23 mod 256"

definition f32_frac :: "32 word \<Rightarrow> nat" where
  "f32_frac x = unat x mod 2 ^ 23"

definition signed :: "nat \<Rightarrow> rat \<Rightarrow> rat" where
  "signed s q = (if s \<noteq> 0 then - q else q)"

text \<open>The number that the binary16 fields \<open>s\<close>, \<open>e\<close>, \<open>m\<close> stand for.\<close>

definition binary16_value :: "nat \<Rightarrow> nat \<Rightarrow> nat \<Rightarrow> number" where
  "binary16_value s e m =
     (if e = 0 then
        (if m = 0 then (if s \<noteq> 0 then NegZero else Num 0)
         else Num (signed s (of_nat m * 2 powi (- 24))))
      else if e = 31 then
        (if m = 0 then (if s \<noteq> 0 then NegInfinity else PosInfinity) else NaN)
      else Num (signed s (of_nat (1024 + m) * 2 powi (int e - 25))))"

text \<open>The number that the binary32 fields \<open>s\<close>, \<open>e\<close>, \<open>m\<close> stand for.\<close>

definition binary32_value :: "nat \<Rightarrow> nat \<Rightarrow> nat \<Rightarrow> number" where
  "binary32_value s e m =
     (if e = 255 then
        (if m \<noteq> 0 then NaN else if s \<noteq> 0 then NegInfinity else PosInfinity)
      else if e = 0 then
        (if m = 0 then (if s \<noteq> 0 then NegZero else Num 0)
         else Num (signed s (of_nat m * 2 powi (- 149))))
      else Num (signed s (of_nat (2 ^ 23 + m) * 2 powi (int e - 150))))"

text \<open>
  What \<open>floatToHalf\<close> returns, as a function of the binary32 fields, with the bitwise
  operations written out as arithmetic. In the last case \<open>k\<close> is the rounded mantissa; when
  it reaches 1024 the bit it carries is combined with the exponent field by \<open>|\<close>, which
  adds it only to an even exponent field.
\<close>

definition floatToHalf_fields :: "nat \<Rightarrow> nat \<Rightarrow> nat \<Rightarrow> nat" where
  "floatToHalf_fields s e m =
     (if e = 255 then s * 32768 + (if m \<noteq> 0 then 0x7e00 else 0x7c00)
      else if e < 113 then
        (if e < 103 then s * 32768
         else s * 32768 +
           ((2 ^ 23 + m) div 2 ^ (126 - e) + (2 ^ 23 + m) div 2 ^ (125 - e) mod 2))
      else if 142 < e then s * 32768 + 0x7c00
      else
        let k = m div 2 ^ 13 + m div 2 ^ 12 mod 2; he = e - 112
        in s * 32768 +
           (if k < 1024 then he * 1024 + k
            else if even he then (he + 1) * 1024 else he * 1024))"

text \<open>
  The binary32 patterns whose value is a binary16 value: the zeros, the patterns with an
  exponent from \<open>-14\<close> to \<open>15\<close> whose fraction ends in 13 zero bits, and the patterns with
  an exponent from \<open>-24\<close> to \<open>-15\<close> whose significand is a multiple of the binary16
  subnormal spacing \<open>2 ^ -24\<close>.
\<close>

definition half_exact :: "32 word \<Rightarrow> bool" where
  "half_exact x =
     (let e = f32_exp x; m = f32_frac x
      in (e = 0 \<and> m = 0) \<or>
         (113 \<le> e \<and> e \<le> 142 \<and> m mod 2 ^ 13 = 0) \<or>
         (103 \<le> e \<and> e \<le> 112 \<and> (2 ^ 23 + m) mod 2 ^ (126 - e) = 0))"

text \<open>
  The magnitude of the value of a finite binary32 pattern, the spacing of the binary16
  values at its exponent (\<open>2 ^ (e - 10)\<close> for an exponent \<open>e\<close> of at least \<open>-14\<close>, the subnormal
  spacing \<open>2 ^ -24\<close> below), and rounding to the nearest multiple of a spacing with a tie
  going up.
\<close>

definition f32_magnitude :: "32 word \<Rightarrow> rat" where
  "f32_magnitude x =
     (let e = f32_exp x; m = f32_frac x
      in if e = 0 then of_nat m * 2 powi (- 149)
         else of_nat (2 ^ 23 + m) * 2 powi (int e - 150))"

definition half_spacing :: "32 word \<Rightarrow> rat" where
  "half_spacing x = 2 powi (max (int (f32_exp x) - 127) (- 14) - 10)"

definition round_half_up :: "rat \<Rightarrow> rat \<Rightarrow> rat" where
  "round_half_up u v = of_int \<lfloor>v / u + 1 / 2\<rfloor> * u"

text \<open>
  The inputs of the last branch of \<open>floatToHalf\<close> at which \<open>halfMantissa + roundBit\<close> is 1024
  while \<open>halfExp\<close> is odd: bit 10 of the sum meets a set bit of \<open>halfExp << 10\<close> under \<open>|\<close>.
\<close>

definition carry_lost :: "32 word \<Rightarrow> bool" where
  "carry_lost x =
     (let e = f32_exp x; m = f32_frac x
      in 113 \<le> e \<and> e \<le> 142 \<and> m div 2 ^ 13 + m div 2 ^ 12 mod 2 = 1024 \<and> odd (e - 112))"

text \<open>
  The distance between the value of a finite binary32 pattern and the value of a finite
  binary16 pattern.
\<close>

fun number_value :: "number \<Rightarrow> rat" where
  "number_value (Num q) = q"
| "number_value _ = 0"

definition half_error :: "32 word \<Rightarrow> 32 word \<Rightarrow> rat" where
  "half_error x h = \<bar>number_value (halfToFloat h) - number_value (float32_value x)\<bar>"

section \<open>EXR scanline blocks\<close>




text \<open>
  What the block loop can throw: \<open>Error('Invalid EXR chunk size')\<close>, the \<open>RangeError\<close> of a
  \<open>DataView\<close> read or a typed-array view outside the buffer, the \<open>TypeError\<close> of reading a
  field of a channel that is not there, and whatever \<open>decompressDeflate\<close> rejects with.
\<close>

datatype exr_error = InvalidChunkSize | OutOfBounds | NoSuchChannel | InflateFailed









































section \<open>Properties of the run-length decoder\<close>

lemma rle_iter_advances:
  assumes "rle_iter bytes x off out = Inr (x', off', out')"
  shows "off < off'" and "off' \<le> length bytes"
  using assms
  by (auto simp: rle_iter_def Let_def split: if_splits sum.splits)


lemma rle_iter_take_eq:
  assumes "rle_iter bytes x off out = Inr (x', off', out')" and "off' \<le> n"
  shows "rle_iter (take n bytes) x off out = Inr (x', off', out')"
proof -
  from assms(1) have "off < off'" by (rule rle_iter_advances)
  with assms(2) have "off < n" "Suc off \<le> n" by simp_all
  then show ?thesis using assms
  by (auto simp: rle_iter_def Let_def slice_def min_def take_drop split: if_splits sum.splits)
qed

lemma rle_iter_take_eof:
  assumes "rle_iter bytes x off out = Inr (x', off', out')" and "n < off'"
  shows "rle_iter (take n bytes) x off out = Inl UnexpectedEof"
proof (cases "off < n")
  case False
  then show ?thesis by (auto simp: rle_iter_def)
next
  case True
  then show ?thesis using assms
  by (auto simp: rle_iter_def Let_def slice_def min_def split: if_splits sum.splits)
qed

lemma rle_loop_unfold_done: "\<not> x < width \<Longrightarrow> rle_loop bytes width x off out = Some (Inr (off, out))"
  by (subst rle_loop.simps) simp

lemma rle_loop_unfold_err:
  "x < width \<Longrightarrow> rle_iter bytes x off out = Inl e \<Longrightarrow> rle_loop bytes width x off out = Some (Inl e)"
  by (subst rle_loop.simps) simp

lemma rle_loop_unfold_step:
  "x < width \<Longrightarrow> rle_iter bytes x off out = Inr (x', off', out') \<Longrightarrow>
   rle_loop bytes width x off out = rle_loop bytes width x' off' out'"
  by (subst rle_loop.simps) simp

lemma rle_loop_offset_mono:
  "rle_loop bytes width x off out = Some (Inr (off', out')) \<Longrightarrow> off \<le> off'"
proof (induction "length bytes - off" arbitrary: x off out rule: less_induct)
  case less
  show ?case
  proof (cases "x < width")
    case False
    with less.prems show ?thesis by (simp add: rle_loop_unfold_done)
  next
    case True
    show ?thesis
    proof (cases "rle_iter bytes x off out")
      case (Inl e)
      with True less.prems show ?thesis by (simp add: rle_loop_unfold_err)
    next
      case (Inr st)
      obtain x1 off1 out1 where st: "st = (x1, off1, out1)" by (cases st)
      from Inr st have adv: "off < off1" "off1 \<le> length bytes"
        using rle_iter_advances by blast+
      then have m: "length bytes - off1 < length bytes - off" by arith
      from True Inr st less.prems
      have "rle_loop bytes width x1 off1 out1 = Some (Inr (off', out'))"
        by (simp add: rle_loop_unfold_step)
      from less.hyps [OF m this] adv show ?thesis by simp
    qed
  qed
qed

lemma rle_loop_take_eq:
  "rle_loop bytes width x off out = Some (Inr (off', out')) \<Longrightarrow> off' \<le> n \<Longrightarrow>
   rle_loop (take n bytes) width x off out = Some (Inr (off', out'))"
proof (induction "length bytes - off" arbitrary: x off out rule: less_induct)
  case less
  show ?case
  proof (cases "x < width")
    case False
    with less.prems show ?thesis by (simp add: rle_loop_unfold_done)
  next
    case True
    show ?thesis
    proof (cases "rle_iter bytes x off out")
      case (Inl e)
      with True less.prems show ?thesis by (simp add: rle_loop_unfold_err)
    next
      case (Inr st)
      obtain x1 off1 out1 where st: "st = (x1, off1, out1)" by (cases st)
      from Inr st have adv: "off < off1" "off1 \<le> length bytes"
        using rle_iter_advances by blast+
      then have m: "length bytes - off1 < length bytes - off" by arith
      from True Inr st less.prems
      have run: "rle_loop bytes width x1 off1 out1 = Some (Inr (off', out'))"
        by (simp add: rle_loop_unfold_step)
      then have "off1 \<le> off'" by (rule rle_loop_offset_mono)
      with less.prems(2) have "off1 \<le> n" by simp
      with Inr st have "rle_iter (take n bytes) x off out = Inr (x1, off1, out1)"
        by (simp add: rle_iter_take_eq)
      with True less.hyps [OF m run less.prems(2)] show ?thesis
        by (simp add: rle_loop_unfold_step)
    qed
  qed
qed

lemma rle_loop_take_eof:
  "rle_loop bytes width x off out = Some (Inr (off', out')) \<Longrightarrow> n < off' \<Longrightarrow>
   rle_loop (take n bytes) width x off out = Some (Inl UnexpectedEof) \<or> off' = off"
proof (induction "length bytes - off" arbitrary: x off out rule: less_induct)
  case less
  show ?case
  proof (cases "x < width")
    case False
    with less.prems show ?thesis by (simp add: rle_loop_unfold_done)
  next
    case True
    show ?thesis
    proof (cases "rle_iter bytes x off out")
      case (Inl e)
      with True less.prems show ?thesis by (simp add: rle_loop_unfold_err)
    next
      case (Inr st)
      obtain x1 off1 out1 where st: "st = (x1, off1, out1)" by (cases st)
      from Inr st have adv: "off < off1" "off1 \<le> length bytes"
        using rle_iter_advances by blast+
      then have m: "length bytes - off1 < length bytes - off" by arith
      from True Inr st less.prems
      have run: "rle_loop bytes width x1 off1 out1 = Some (Inr (off', out'))"
        by (simp add: rle_loop_unfold_step)
      show ?thesis
      proof (cases "n < off1")
        case True
        with Inr st have "rle_iter (take n bytes) x off out = Inl UnexpectedEof"
          by (simp add: rle_iter_take_eof)
        with \<open>x < width\<close> show ?thesis by (simp add: rle_loop_unfold_err)
      next
        case False
        then have "off1 \<le> n" by simp
        with Inr st have it: "rle_iter (take n bytes) x off out = Inr (x1, off1, out1)"
          by (simp add: rle_iter_take_eq)
        from less.hyps [OF m run less.prems(2)]
        have "rle_loop (take n bytes) width x1 off1 out1 = Some (Inl UnexpectedEof) \<or> off' = off1" .
        with \<open>off1 \<le> n\<close> less.prems(2)
        have "rle_loop (take n bytes) width x1 off1 out1 = Some (Inl UnexpectedEof)" by auto
        with True it \<open>x < width\<close> show ?thesis by (simp add: rle_loop_unfold_step)
      qed
    qed
  qed
qed

lemma rle_loop_offset_strict:
  assumes "x < width" and "rle_loop bytes width x off out = Some (Inr (off', out'))"
  shows "off < off'"
proof (cases "rle_iter bytes x off out")
  case (Inl e)
  with assms show ?thesis by (simp add: rle_loop_unfold_err)
next
  case (Inr st)
  obtain x1 off1 out1 where st: "st = (x1, off1, out1)" by (cases st)
  from Inr st have "off < off1" using rle_iter_advances by blast
  moreover from assms Inr st have "rle_loop bytes width x1 off1 out1 = Some (Inr (off', out'))"
    by (simp add: rle_loop_unfold_step)
  then have "off1 \<le> off'" by (rule rle_loop_offset_mono)
  ultimately show ?thesis by simp
qed

lemma decodeRLEChannel_take_eq:
  "decodeRLEChannel bytes off width pl = Some (Inr (off', pl')) \<Longrightarrow> off' \<le> n \<Longrightarrow>
   decodeRLEChannel (take n bytes) off width pl = Some (Inr (off', pl'))"
  unfolding decodeRLEChannel_def by (rule rle_loop_take_eq)

lemma decodeRLEChannel_take_eof:
  assumes "0 < width" and "decodeRLEChannel bytes off width pl = Some (Inr (off', pl'))"
    and "n < off'"
  shows "decodeRLEChannel (take n bytes) off width pl = Some (Inl UnexpectedEof)"
proof -
  from assms(1,2) have "off < off'"
    unfolding decodeRLEChannel_def by (rule rle_loop_offset_strict)
  with rle_loop_take_eof [OF assms(2) [unfolded decodeRLEChannel_def] assms(3)]
  show ?thesis by (simp add: decodeRLEChannel_def)
qed

lemma and_then_Inr:
  "and_then m f = Some (Inr v) \<Longrightarrow> \<exists>a. m = Some (Inr a) \<and> f a = Some (Inr v)"
  by (auto simp: and_then_def split: option.splits sum.splits)

lemma and_then_Some_Inr [simp]: "and_then (Some (Inr a)) f = f a"
  by (simp add: and_then_def)

lemma and_then_Some_Inl [simp]: "and_then (Some (Inl e)) f = Some (Inl e)"
  by (simp add: and_then_def)

lemma decodeOldPixels_take_eof:
  "decodeOldPixels bytes offset width out = Inr (off', out') \<Longrightarrow> n < off' \<Longrightarrow>
   decodeOldPixels (take n bytes) offset width out = Inl UnexpectedEof"
  by (auto simp: decodeOldPixels_def Let_def split: if_splits sum.splits)

lemma rle_chain_take_eof:
  assumes w: "0 < width"
    and run: "and_then (decodeRLEChannel bytes o0 width r) (\<lambda>(off, r').
                and_then (decodeRLEChannel bytes off width g) (\<lambda>(off, g').
                and_then (decodeRLEChannel bytes off width b) (\<lambda>(off, b').
                and_then (decodeRLEChannel bytes off width e) (\<lambda>(off, e').
                  Some (Inr (off, r' @ g' @ b' @ e')))))) = Some (Inr (off', sl'))"
    and n: "n < off'"
  shows "and_then (decodeRLEChannel (take n bytes) o0 width r) (\<lambda>(off, r').
                and_then (decodeRLEChannel (take n bytes) off width g) (\<lambda>(off, g').
                and_then (decodeRLEChannel (take n bytes) off width b) (\<lambda>(off, b').
                and_then (decodeRLEChannel (take n bytes) off width e) (\<lambda>(off, e').
                  Some (Inr (off, r' @ g' @ b' @ e')))))) = Some (Inl UnexpectedEof)"
proof -
  from and_then_Inr [OF run] obtain o1 r' where
    r: "decodeRLEChannel bytes o0 width r = Some (Inr (o1, r'))" and
    run1: "and_then (decodeRLEChannel bytes o1 width g) (\<lambda>(off, g').
                and_then (decodeRLEChannel bytes off width b) (\<lambda>(off, b').
                and_then (decodeRLEChannel bytes off width e) (\<lambda>(off, e').
                  Some (Inr (off, r' @ g' @ b' @ e'))))) = Some (Inr (off', sl'))"
    by auto
  from and_then_Inr [OF run1] obtain o2 g' where
    g: "decodeRLEChannel bytes o1 width g = Some (Inr (o2, g'))" and
    run2: "and_then (decodeRLEChannel bytes o2 width b) (\<lambda>(off, b').
                and_then (decodeRLEChannel bytes off width e) (\<lambda>(off, e').
                  Some (Inr (off, r' @ g' @ b' @ e')))) = Some (Inr (off', sl'))"
    by auto
  from and_then_Inr [OF run2] obtain o3 b' where
    b: "decodeRLEChannel bytes o2 width b = Some (Inr (o3, b'))" and
    run3: "and_then (decodeRLEChannel bytes o3 width e) (\<lambda>(off, e').
                  Some (Inr (off, r' @ g' @ b' @ e'))) = Some (Inr (off', sl'))"
    by auto
  from and_then_Inr [OF run3] obtain e' where
    e: "decodeRLEChannel bytes o3 width e = Some (Inr (off', e'))"
    by auto
  show ?thesis
  proof (cases "n < o1")
    case True
    with w r show ?thesis by (simp add: decodeRLEChannel_take_eof)
  next
    case n1: False
    with r have r2: "decodeRLEChannel (take n bytes) o0 width r = Some (Inr (o1, r'))"
      by (simp add: decodeRLEChannel_take_eq)
    show ?thesis
    proof (cases "n < o2")
      case True
      with w g r2 show ?thesis by (simp add: decodeRLEChannel_take_eof)
    next
      case n2: False
      with g have g2: "decodeRLEChannel (take n bytes) o1 width g = Some (Inr (o2, g'))"
        by (simp add: decodeRLEChannel_take_eq)
      show ?thesis
      proof (cases "n < o3")
        case True
        with w b r2 g2 show ?thesis by (simp add: decodeRLEChannel_take_eof)
      next
        case n3: False
        with b have b2: "decodeRLEChannel (take n bytes) o2 width b = Some (Inr (o3, b'))"
          by (simp add: decodeRLEChannel_take_eq)
        from w e n have "decodeRLEChannel (take n bytes) o3 width e = Some (Inl UnexpectedEof)"
          by (rule decodeRLEChannel_take_eof)
        with r2 g2 b2 show ?thesis by simp
      qed
    qed
  qed
qed

lemma decodeScanline_take_eof:
  assumes "decodeScanline bytes offset width scanline = Some (Inr (off', sl'))" and "n < off'"
  shows "decodeScanline (take n bytes) offset width scanline = Some (Inl UnexpectedEof)"
proof (cases "width < 8 \<or> width > 0x7fff")
  case True
  with assms show ?thesis
    by (auto simp: decodeScanline_def decodeOldPixels_take_eof)
next
  case range: False
  show ?thesis
  proof (cases "offset + 4 > n")
    case True
    then have "offset + 4 > length (take n bytes)" by simp
    with range show ?thesis unfolding decodeScanline_def by (simp only: if_True if_False)
  next
    case False
    then have n4: "offset + 4 \<le> n" by simp
    from assms(1) range have len: "offset + 4 \<le> length bytes"
      by (auto simp: decodeScanline_def split: if_splits)
    have nth: "take n bytes ! offset = bytes ! offset"
      "take n bytes ! (offset + 1) = bytes ! (offset + 1)"
      "take n bytes ! (offset + 2) = bytes ! (offset + 2)"
      "take n bytes ! (offset + 3) = bytes ! (offset + 3)"
      using n4 by simp_all
    show ?thesis
    proof (cases "bytes ! offset = 2 \<and> bytes ! (offset + 1) = 2 \<and>
        push_bit 8 (unat (bytes ! (offset + 2))) OR unat (bytes ! (offset + 3)) = width")
      case False
      with assms range len n4 nth show ?thesis
        by (auto simp: decodeScanline_def Let_def decodeOldPixels_take_eof)
    next
      case True
      from range have w: "0 < width" by simp
      from assms(1) range len True
      have run: "and_then (decodeRLEChannel bytes (offset + 4) width (slice scanline 0 width)) (\<lambda>(off, r').
                and_then (decodeRLEChannel bytes off width (slice scanline width (width * 2))) (\<lambda>(off, g').
                and_then (decodeRLEChannel bytes off width (slice scanline (width * 2) (width * 3))) (\<lambda>(off, b').
                and_then (decodeRLEChannel bytes off width (slice scanline (width * 3) (width * 4))) (\<lambda>(off, e').
                  Some (Inr (off, r' @ g' @ b' @ e')))))) = Some (Inr (off', sl'))"
        by (simp add: decodeScanline_def Let_def)
      from rle_chain_take_eof [OF w run assms(2)] range len n4 nth True
      show ?thesis by (simp add: decodeScanline_def Let_def)
    qed
  qed
qed

lemma rle_iter_RangeError_iff:
  "rle_iter bytes x off pl = Inl RangeError \<longleftrightarrow>
     off < length bytes \<and> 0 < unat (bytes ! off) \<and> unat (bytes ! off) \<le> 128 \<and>
     off + 1 + unat (bytes ! off) \<le> length bytes \<and> length pl < x + unat (bytes ! off)"
  by (auto simp: rle_iter_def Let_def set_at_def slice_def split: if_splits sum.splits)

lemma rle_iter_UnexpectedEof_iff:
  "rle_iter bytes x off pl = Inl UnexpectedEof \<longleftrightarrow>
     length bytes \<le> off \<or>
     (128 < unat (bytes ! off) \<and> length bytes \<le> off + 1) \<or>
     (0 < unat (bytes ! off) \<and> unat (bytes ! off) \<le> 128 \<and>
      length bytes < off + 1 + unat (bytes ! off))"
  by (auto simp: rle_iter_def Let_def set_at_def slice_def split: if_splits sum.splits)

lemma decodeOldPixels_error:
  assumes "length scanline = width * 4"
  shows "decodeOldPixels bytes offset width scanline = Inl e \<longleftrightarrow>
         e = UnexpectedEof \<and> length bytes < offset + width * 4"
  using assms
  by (auto simp: decodeOldPixels_def Let_def set_at_def slice_def split: if_splits sum.splits)

lemma decodeScanline_RangeError:
  assumes "length scanline = width * 4"
    and "decodeScanline bytes offset width scanline = Some (Inl RangeError)"
  shows "8 \<le> width \<and> width \<le> 0x7fff \<and> offset + 4 \<le> length bytes \<and>
         bytes ! offset = 2 \<and> bytes ! (offset + 1) = 2"
  using assms decodeOldPixels_error [OF assms(1), of bytes offset RangeError]
  by (auto simp: decodeScanline_def Let_def split: if_splits)

section \<open>Properties of the rounding to binary64\<close>

lemma log2n_le: "0 < n \<Longrightarrow> 2 ^ log2n n \<le> n"
proof (induction n rule: log2n.induct)
  case (1 n)
  show ?case
  proof (cases "n < 2")
    case True
    with "1.prems" show ?thesis by (simp add: log2n.simps)
  next
    case False
    then have "0 < n div 2" by simp
    with "1.IH" False have "2 ^ log2n (n div 2) \<le> n div 2" by simp
    then have "2 * 2 ^ log2n (n div 2) \<le> n" by simp
    with False show ?thesis by (subst log2n.simps) simp
  qed
qed

lemma log2n_gt: "n < 2 ^ Suc (log2n n)"
proof (induction n rule: log2n.induct)
  case (1 n)
  show ?case
  proof (cases "n < 2")
    case True
    then show ?thesis by (simp add: log2n.simps)
  next
    case False
    with "1.IH" have "n div 2 < 2 ^ Suc (log2n (n div 2))" by simp
    then have "n < 2 * 2 ^ Suc (log2n (n div 2))" by simp
    with False show ?thesis by (subst log2n.simps) simp
  qed
qed

lemma exponent2_lower:
  assumes "0 < q"
  shows "2 powi (exponent2 q) \<le> q"
proof (cases "1 \<le> q")
  case True
  then have pos: "0 < nat \<lfloor>q\<rfloor>" by simp
  have "(2::rat) ^ log2n (nat \<lfloor>q\<rfloor>) = of_nat (2 ^ log2n (nat \<lfloor>q\<rfloor>))" by simp
  also have "\<dots> \<le> of_nat (nat \<lfloor>q\<rfloor>)" using log2n_le [OF pos] by (simp only: of_nat_le_iff)
  also have "\<dots> = of_int \<lfloor>q\<rfloor>" using True by simp
  also have "\<dots> \<le> q" by simp
  finally show ?thesis using True by (simp add: exponent2_def)
next
  case False
  define r where "r = 1 / q"
  define m where "m = nat (\<lceil>r\<rceil> - 1)"
  from False assms have r: "1 < r" by (simp add: r_def field_simps)
  then have "of_int 1 < r" by simp
  then have "1 < \<lceil>r\<rceil>" by (simp only: less_ceiling_iff)
  then have eq: "\<lceil>r\<rceil> = int (Suc m)" by (simp add: m_def)
  have "r \<le> of_int \<lceil>r\<rceil>" by simp
  also have "\<dots> = of_nat (Suc m)" by (simp only: eq of_int_of_nat_eq)
  also have "\<dots> \<le> of_nat (2 ^ Suc (log2n m))"
  proof -
    have "Suc m \<le> 2 ^ Suc (log2n m)" using log2n_gt [of m] by simp
    then show ?thesis by (simp only: of_nat_le_iff)
  qed
  also have "\<dots> = 2 ^ Suc (log2n m)" by simp
  finally have "1 / q \<le> 2 ^ Suc (log2n m)" by (simp only: r_def)
  with assms have "1 / 2 ^ Suc (log2n m) \<le> q"
    by (simp add: field_simps)
  moreover have "exponent2 q = - int (Suc (log2n m))"
    using False by (simp only: exponent2_def m_def r_def if_False)
  moreover have "(2::rat) powi (- int (Suc (log2n m))) = 1 / 2 ^ Suc (log2n m)"
    by (simp only: power_int_minus power_int_of_nat inverse_eq_divide)
  ultimately show ?thesis by simp
qed

lemma exponent2_upper:
  assumes "0 < q"
  shows "q < 2 powi (exponent2 q + 1)"
proof (cases "1 \<le> q")
  case True
  define n where "n = nat \<lfloor>q\<rfloor>"
  have e: "exponent2 q = int (log2n n)" using True by (simp add: exponent2_def n_def)
  have "q < of_int \<lfloor>q\<rfloor> + 1" by linarith
  also have "of_int \<lfloor>q\<rfloor> + 1 = (of_nat (Suc n) :: rat)" using True by (simp add: n_def)
  also have "\<dots> \<le> of_nat (2 ^ Suc (log2n n))"
  proof -
    have "Suc n \<le> 2 ^ Suc (log2n n)" using log2n_gt [of n] by simp
    then show ?thesis by (simp only: of_nat_le_iff)
  qed
  also have "\<dots> = 2 powi (int (log2n n) + 1)"
    by (simp add: power_int_add)
  finally show ?thesis by (simp only: e)
next
  case False
  define r where "r = 1 / q"
  define m where "m = nat (\<lceil>r\<rceil> - 1)"
  from False assms have r: "1 < r" by (simp add: r_def field_simps)
  then have "of_int 1 < r" by simp
  then have c: "1 < \<lceil>r\<rceil>" by (simp only: less_ceiling_iff)
  then have m: "0 < m" by (simp add: m_def)
  have e: "exponent2 q = - int (Suc (log2n m))"
    using False by (simp only: exponent2_def m_def r_def if_False)
  have "(2::rat) ^ log2n m = of_nat (2 ^ log2n m)" by simp
  also have "\<dots> \<le> of_nat m" using log2n_le [OF m] by (simp only: of_nat_le_iff)
  also have "\<dots> = of_int (\<lceil>r\<rceil> - 1)" using c by (simp add: m_def)
  also have "\<dots> < r" by linarith
  finally have "2 ^ log2n m < 1 / q" by (simp only: r_def)
  with assms have "q < 1 / 2 ^ log2n m" by (simp add: field_simps)
  moreover have "(2::rat) powi (- int (Suc (log2n m)) + 1) = 1 / 2 ^ log2n m"
  proof -
    have "- int (Suc (log2n m)) + 1 = - int (log2n m)" by simp
    then show ?thesis
      by (simp only: power_int_minus power_int_of_nat inverse_eq_divide)
  qed
  ultimately show ?thesis by (simp only: e)
qed

lemma round_even_err: "\<bar>of_int (round_even x) - x\<bar> \<le> 1 / 2"
proof -
  have "of_int \<lfloor>x\<rfloor> \<le> x" "x < of_int \<lfloor>x\<rfloor> + 1" by linarith+
  then show ?thesis by (auto simp: round_even_def Let_def)
qed

lemma round_even_of_int [simp]: "round_even (of_int n) = n"
  by (simp add: round_even_def)

lemma round_even_le:
  assumes "x \<le> of_int n" shows "round_even x \<le> n"
proof -
  have "of_int (round_even x) \<le> x + 1 / 2" using round_even_err [of x] by linarith
  with assms have "(of_int (round_even x) :: rat) < of_int (n + 1)" by simp
  then have "round_even x < n + 1" by (simp only: of_int_less_iff)
  then show ?thesis by simp
qed

lemma round_even_ge:
  assumes "of_int n \<le> x" shows "n \<le> round_even x"
proof -
  have "x - 1 / 2 \<le> of_int (round_even x)" using round_even_err [of x] by linarith
  with assms have "(of_int (n - 1) :: rat) < of_int (round_even x)" by simp
  then have "n - 1 < round_even x" by (simp only: of_int_less_iff)
  then show ?thesis by simp
qed

lemma fl_pos_eq:
  assumes "0 < q"
  shows "fl q = of_int (round_even (q * 2 powi (52 - exponent2 q))) * 2 powi (exponent2 q - 52)"
  using assms by (simp add: fl_def Let_def)

lemma powi2_pos [simp]: "0 < (2::rat) powi e"
  by (simp add: power_int_def)

lemma powi2_cancel: "(2::rat) powi a * 2 powi b = 2 powi (a + b)"
  by (simp add: power_int_add)

lemma fl_err:
  assumes "0 < q"
  shows "\<bar>fl q - q\<bar> \<le> 2 powi (exponent2 q - 53)"
proof -
  define e where "e = exponent2 q"
  define m where "m = round_even (q * 2 powi (52 - e))"
  have s: "(2::rat) powi (52 - e) * 2 powi (e - 52) = 1"
    by (simp add: powi2_cancel)
  have "fl q - q = (of_int m - q * 2 powi (52 - e)) * 2 powi (e - 52)"
    using s by (simp add: fl_pos_eq [OF assms] e_def m_def algebra_simps)
  then have "\<bar>fl q - q\<bar> = \<bar>of_int m - q * 2 powi (52 - e)\<bar> * 2 powi (e - 52)"
    by (simp add: abs_mult)
  also have "\<dots> \<le> (1 / 2) * 2 powi (e - 52)"
    using round_even_err [of "q * 2 powi (52 - e)"]
    by (intro mult_right_mono) (simp_all add: m_def)
  also have "\<dots> = 2 powi (e - 53)"
  proof -
    have "(2::rat) powi (e - 52) = 2 powi (e - 53) * 2 powi 1"
      by (simp only: powi2_cancel) simp
    then show ?thesis by simp
  qed
  finally show ?thesis by (simp only: e_def)
qed

lemma fl_rel_err:
  assumes "0 < q"
  shows "\<bar>fl q - q\<bar> \<le> q / 2 ^ 53"
proof -
  have "(2::rat) powi (exponent2 q - 53) * 2 powi 53 = 2 powi (exponent2 q)"
    by (simp only: powi2_cancel) simp
  then have "(2::rat) powi (exponent2 q - 53) = 2 powi (exponent2 q) / 2 ^ 53"
    by (simp add: field_simps)
  also have "\<dots> \<le> q / 2 ^ 53"
    using exponent2_lower [OF assms] by (simp add: divide_right_mono)
  finally show ?thesis using fl_err [OF assms] by linarith
qed

lemma exponent2_le_52:
  assumes "0 < q" and "q \<le> of_int n" and "n < 2 ^ 53"
  shows "exponent2 q \<le> 52"
proof (rule ccontr)
  assume "\<not> exponent2 q \<le> 52"
  then have "53 \<le> exponent2 q" by simp
  then have "(2::rat) powi 53 \<le> 2 powi (exponent2 q)"
    by (intro power_int_increasing) simp_all
  also have "\<dots> \<le> q" using assms(1) by (rule exponent2_lower)
  also have "\<dots> \<le> of_int n" by (rule assms(2))
  finally have "(of_int (2 ^ 53) :: rat) \<le> of_int n" by simp
  then have "(2 ^ 53 :: int) \<le> n" by (simp only: of_int_le_iff)
  with assms(3) show False by simp
qed

lemma fl_le_int:
  assumes "0 < q" and "q \<le> of_int n" and "n < 2 ^ 53"
  shows "fl q \<le> of_int n"
proof -
  define e where "e = exponent2 q"
  have e: "e \<le> 52" unfolding e_def using assms by (rule exponent2_le_52)
  have p: "(2::rat) powi (52 - e) = of_int (2 ^ nat (52 - e))"
    using e by (simp add: power_int_def)
  have "q * 2 powi (52 - e) \<le> of_int n * 2 powi (52 - e)"
    using assms(2) by (intro mult_right_mono) simp_all
  also have "\<dots> = of_int (n * 2 ^ nat (52 - e))" by (simp add: p)
  finally have "round_even (q * 2 powi (52 - e)) \<le> n * 2 ^ nat (52 - e)"
    by (rule round_even_le)
  then have "(of_int (round_even (q * 2 powi (52 - e))) :: rat) \<le> of_int (n * 2 ^ nat (52 - e))"
    by (simp only: of_int_le_iff)
  then have "of_int (round_even (q * 2 powi (52 - e))) * 2 powi (e - 52)
      \<le> of_int (n * 2 ^ nat (52 - e)) * (2::rat) powi (e - 52)"
    by (intro mult_right_mono) simp_all
  also have "\<dots> = of_int n * (2 powi (52 - e) * 2 powi (e - 52))"
    by (simp add: p)
  also have "\<dots> = of_int n" by (simp add: powi2_cancel)
  finally show ?thesis by (simp add: fl_pos_eq [OF assms(1)] e_def)
qed

lemma fl_ge_int:
  assumes "0 < n" and "of_int n \<le> q" and "q < 2 ^ 53"
  shows "of_int n \<le> fl q"
proof -
  define e where "e = exponent2 q"
  have "(0::rat) < of_int n" using assms(1) by simp
  with assms(2) have q: "0 < q" by linarith
  have p53: "(2::rat) powi 53 = 2 ^ 53" by simp
  have e: "e \<le> 52"
  proof (rule ccontr)
    assume "\<not> e \<le> 52"
    then have "53 \<le> e" by simp
    then have "(2::rat) powi 53 \<le> 2 powi e" by (intro power_int_increasing) simp_all
    also have "\<dots> \<le> q" unfolding e_def using q by (rule exponent2_lower)
    finally show False using assms(3) unfolding p53 by linarith
  qed
  have p: "(2::rat) powi (52 - e) = of_int (2 ^ nat (52 - e))"
    using e by (simp add: power_int_def)
  have "of_int (n * 2 ^ nat (52 - e)) = of_int n * (2::rat) powi (52 - e)" by (simp add: p)
  also have "\<dots> \<le> q * 2 powi (52 - e)"
    using assms(2) by (intro mult_right_mono) simp_all
  finally have "n * 2 ^ nat (52 - e) \<le> round_even (q * 2 powi (52 - e))"
    by (rule round_even_ge)
  then have le: "(of_int (n * 2 ^ nat (52 - e)) :: rat) \<le> of_int (round_even (q * 2 powi (52 - e)))"
    by (simp only: of_int_le_iff)
  have "(of_int n :: rat) = of_int n * (2 powi (52 - e) * 2 powi (e - 52))"
    by (simp add: powi2_cancel)
  also have "\<dots> = of_int (n * 2 ^ nat (52 - e)) * (2::rat) powi (e - 52)"
    by (simp add: p)
  also have "\<dots> \<le> of_int (round_even (q * 2 powi (52 - e))) * 2 powi (e - 52)"
    using le by (intro mult_right_mono) simp_all
  finally show ?thesis by (simp add: fl_pos_eq [OF q] e_def)
qed

lemma fl_of_int:
  assumes "0 < n" and "n < 2 ^ 53"
  shows "fl (of_int n) = of_int n"
proof (rule antisym)
  show "fl (of_int n) \<le> of_int n"
    using assms by (intro fl_le_int) simp_all
  have "(of_int n :: rat) < of_int (2 ^ 53)" using assms(2) by (simp only: of_int_less_iff)
  then show "of_int n \<le> fl (of_int n)"
    using assms(1) by (intro fl_ge_int) simp_all
qed

lemma fl_pos:
  assumes "0 < q" shows "0 < fl q"
proof -
  define e where "e = exponent2 q"
  have "(2::rat) powi 52 = 2 powi e * 2 powi (52 - e)" by (simp add: powi2_cancel)
  also have "\<dots> \<le> q * 2 powi (52 - e)"
    unfolding e_def using exponent2_lower [OF assms] by (intro mult_right_mono) simp_all
  finally have "of_int (2 ^ 52) \<le> q * 2 powi (52 - e)" by simp
  then have "2 ^ 52 \<le> round_even (q * 2 powi (52 - e))" by (rule round_even_ge)
  then have "0 < round_even (q * 2 powi (52 - e))" by simp
  then show ?thesis by (simp add: fl_pos_eq [OF assms] e_def)
qed

lemma floor_perturb:
  fixes t p :: rat and d :: int
  assumes d: "0 < d" and den: "of_int d * t = of_int n" and close: "\<bar>p - t\<bar> < 1 / of_int d"
  shows "\<lfloor>p\<rfloor> = \<lfloor>t\<rfloor> \<or> (of_int \<lfloor>t\<rfloor> = t \<and> \<lfloor>p\<rfloor> = \<lfloor>t\<rfloor> - 1)"
proof -
  define k where "k = \<lfloor>t\<rfloor>"
  have dr: "(0::rat) < of_int d" using d by simp
  have d1: "1 / (of_int d :: rat) \<le> 1"
    using d by (simp add: field_simps) 
  have kt: "of_int k \<le> t" "t < of_int k + 1" unfolding k_def by linarith+
  show ?thesis
  proof (cases "of_int k = t")
    case True
    with close d1 have "of_int (k - 1) \<le> p" "p < of_int k + 1" by (auto simp: abs_less_iff)
    then have "\<lfloor>p\<rfloor> = k \<or> \<lfloor>p\<rfloor> = k - 1"
      by (metis add.commute diff_add_cancel floor_unique le_less_linear of_int_diff of_int_1)
    with True show ?thesis by (auto simp: k_def)
  next
    case False
    with kt have lt: "of_int k < t" by simp
    then have "of_int d * of_int k < of_int d * t" using dr by simp
    then have "(of_int (d * k) :: rat) < of_int n" using den by simp
    then have "d * k < n" by (simp only: of_int_less_iff)
    then have "d * k + 1 \<le> n" by simp
    then have "(of_int (d * k + 1) :: rat) \<le> of_int n" by (simp only: of_int_le_iff)
    then have "of_int d * of_int k + 1 \<le> of_int d * t" using den by simp
    then have lo: "of_int k + 1 / of_int d \<le> t" using dr by (simp add: field_simps)
    from kt(2) have "of_int d * t < of_int d * (of_int k + 1)" using dr by simp
    then have "(of_int n :: rat) < of_int (d * (k + 1))" using den by simp
    then have "n < d * (k + 1)" by (simp only: of_int_less_iff)
    then have "n + 1 \<le> d * (k + 1)" by simp
    then have "(of_int (n + 1) :: rat) \<le> of_int (d * (k + 1))" by (simp only: of_int_le_iff)
    then have "of_int d * t + 1 \<le> of_int d * (of_int k + 1)" using den by simp
    then have hi: "t + 1 / of_int d \<le> of_int k + 1" using dr by (simp add: field_simps)
    from close lo hi have "of_int k \<le> p" "p < of_int k + 1" by (auto simp: abs_less_iff)
    then have "\<lfloor>p\<rfloor> = k" by (simp add: floor_unique)
    then show ?thesis by (simp add: k_def)
  qed
qed

lemma mul_fl_err:
  assumes r: "0 < r" and x: "0 < x"
  shows "\<bar>fl (x * fl r) - x * r\<bar> \<le> x * r / 2 ^ 51"
proof -
  define s where "s = fl r"
  have s: "0 < s" unfolding s_def using r by (rule fl_pos)
  have es: "\<bar>s - r\<bar> \<le> r / 2 ^ 53" unfolding s_def using r by (rule fl_rel_err)
  have z: "0 < x * s" using x s by simp
  have ez: "\<bar>fl (x * s) - x * s\<bar> \<le> x * s / 2 ^ 53" using z by (rule fl_rel_err)
  have "\<bar>x * s - x * r\<bar> = x * \<bar>s - r\<bar>" using x by (simp add: abs_mult flip: right_diff_distrib)
  also have "\<dots> \<le> x * (r / 2 ^ 53)" using es x by (intro mult_left_mono) simp_all
  finally have e1: "\<bar>x * s - x * r\<bar> \<le> x * r / 2 ^ 53" by simp
  then have "x * s \<le> x * r + x * r / 2 ^ 53" by linarith
  also have "\<dots> \<le> 2 * (x * r)" using x r by (simp add: field_simps)
  finally have "x * s \<le> 2 * (x * r)" .
  then have "x * s / 2 ^ 53 \<le> 2 * (x * r) / 2 ^ 53" by (intro divide_right_mono) simp_all
  with ez have e2: "\<bar>fl (x * s) - x * s\<bar> \<le> 2 * (x * r) / 2 ^ 53" by linarith
  have "\<bar>fl (x * s) - x * r\<bar> \<le> \<bar>fl (x * s) - x * s\<bar> + \<bar>x * s - x * r\<bar>" by linarith
  also have "\<dots> \<le> 2 * (x * r) / 2 ^ 53 + x * r / 2 ^ 53" using e1 e2 by linarith
  also have "\<dots> \<le> x * r / 2 ^ 51" using x r by (simp add: field_simps)
  finally show ?thesis by (simp only: s_def)
qed

section \<open>Properties of the HDR header reader\<close>

lemma decode_ascii: "ascii l \<Longrightarrow> TextDecoder_decode l = l"
  by (cases l) (auto simp: TextDecoder_decode_def ascii_def)

lemma readLine_terminated:
  assumes "newline \<notin> set l" and "ascii l"
  shows "readLine (pre @ l @ newline # rest) (length pre) = (l, length pre + length l + 1)"
proof -
  have "takeWhile (\<lambda>c. c \<noteq> newline) (l @ newline # rest) = l"
    using assms by (auto simp: takeWhile_tail)
  then show ?thesis using assms(2) by (simp add: readLine_def slice_def Let_def decode_ascii)
qed

lemma readLine_last:
  assumes "newline \<notin> set l" and "ascii l"
  shows "readLine (pre @ l) (length pre) = (l, length pre + length l)"
proof -
  have tw: "takeWhile (\<lambda>c. c \<noteq> newline) l = l"
    using assms by (auto simp: takeWhile_eq_all_conv)
  show ?thesis unfolding readLine_def slice_def Let_def using assms(2) by (simp add: tw decode_ascii)
qed

lemma trim_empty_iff: "trim s = [] \<longleftrightarrow> (\<forall>c \<in> set s. is_ws c)"
proof
  assume "trim s = []"
  then have all: "\<forall>x \<in> set (dropWhile is_ws s). is_ws x"
    by (simp add: trim_def dropWhile_eq_Nil_conv)
  have "dropWhile is_ws s = []"
  proof (rule ccontr)
    assume ne: "dropWhile is_ws s \<noteq> []"
    then have "\<not> is_ws (hd (dropWhile is_ws s))" by (rule hd_dropWhile)
    moreover from ne have "hd (dropWhile is_ws s) \<in> set (dropWhile is_ws s)" by simp
    ultimately show False using all by blast
  qed
  then show "\<forall>c \<in> set s. is_ws c" by (simp add: dropWhile_eq_Nil_conv)
next
  assume "\<forall>c \<in> set s. is_ws c"
  then have d: "dropWhile is_ws s = []" by (simp add: dropWhile_eq_Nil_conv)
  show "trim s = []" unfolding trim_def d by simp
qed

lemma blank_not_format: "trim l = [] \<Longrightarrow> \<not> startsWith l ''FORMAT=''"
proof
  assume b: "trim l = []" and s: "startsWith l ''FORMAT=''"
  from s have "l \<noteq> []" and "hd l = CHR ''F''"
    by (cases l; simp add: startsWith_def)+
  then have "CHR ''F'' \<in> set l" by (metis hd_in_set)
  with b have "is_ws (CHR ''F'')" by (simp add: trim_empty_iff)
  then show False by (simp add: is_ws_def)
qed

lemma header_loop_lines:
  assumes "\<forall>l \<in> set ls. newline \<notin> set l \<and> trim l \<noteq> [] \<and> ascii l"
    and "newline \<notin> set blank" and "trim blank = []"
    and "newline \<notin> set resline"
    and "tail = [] \<or> hd tail = newline"
    and "ascii blank" and "ascii resline"
  shows "header_loop (pre @ concat (map (\<lambda>l. l @ [newline]) ls) @ blank @ newline # resline @ tail)
           (length pre) ok =
         (case parseResolution resline of
            None \<Rightarrow> Inl InvalidResolution
          | Some res \<Rightarrow> Inr (foldl format_flag ok ls, Some res,
              length pre + length (concat (map (\<lambda>l. l @ [newline]) ls)) + length blank + 1 +
              length resline + (if tail = [] then 0 else 1)))"
  using assms(1)
proof (induction ls arbitrary: pre ok)
  case Nil
  have l1: "readLine (pre @ blank @ newline # resline @ tail) (length pre)
              = (blank, length pre + length blank + 1)"
    using assms(2,6) by (rule readLine_terminated)
  have l2: "readLine (pre @ blank @ newline # resline @ tail) (length pre + length blank + 1)
              = (resline, length pre + length blank + 1 + length resline + (if tail = [] then 0 else 1))"
  proof (cases tail)
    case Nil
    with readLine_last [OF assms(4,7), of "pre @ blank @ [newline]"] show ?thesis by simp
  next
    case (Cons t ts)
    with assms(5) have "tail = newline # ts" by simp
    with readLine_terminated [OF assms(4,7), of "pre @ blank @ [newline]" ts] show ?thesis by simp
  qed
  have b: "\<not> startsWith blank ''FORMAT=''" using assms(3) by (rule blank_not_format)
  show ?case
    by (subst header_loop.simps)
      (simp add: l1 [simplified] l2 [simplified] assms(3) b format_flag_def split: option.splits)
next
  case (Cons l ls)
  let ?rest = "concat (map (\<lambda>l. l @ [newline]) ls) @ blank @ newline # resline @ tail"
  from Cons.prems have nl: "newline \<notin> set l" and nb: "trim l \<noteq> []" and al: "ascii l"
    and rest: "\<forall>l \<in> set ls. newline \<notin> set l \<and> trim l \<noteq> [] \<and> ascii l" by simp_all
  have l1: "readLine (pre @ l @ newline # ?rest) (length pre) = (l, length pre + length l + 1)"
    using nl al by (rule readLine_terminated)
  have step: "header_loop (pre @ l @ newline # ?rest) (length pre) ok
      = header_loop ((pre @ l @ [newline]) @ ?rest) (length (pre @ l @ [newline])) (format_flag ok l)"
    by (subst header_loop.simps) (simp add: l1 nb)
  show ?case
    using step Cons.IH [OF rest, of "pre @ l @ [newline]" "format_flag ok l"]
    by (simp split: option.splits)
qed

lemma foldl_format_flag:
  "foldl format_flag ok ls =
     (if filter (\<lambda>l. startsWith l ''FORMAT='') ls = [] then ok
      else trim (last (filter (\<lambda>l. startsWith l ''FORMAT='') ls)) = ''FORMAT=32-bit_rle_rgbe'')"
  by (induction ls arbitrary: ok rule: rev_induct) (auto simp: format_flag_def)

section \<open>Properties of the size policy and the column mapping\<close>

lemma fl_zero [simp]: "fl 0 = 0"
  by (simp add: fl_def)

lemma fl_of_int_nonneg:
  assumes "0 \<le> n" and "n < 2 ^ 53"
  shows "fl (of_int n) = of_int n"
proof (cases "n = 0")
  case True
  then show ?thesis by simp
next
  case False
  with assms show ?thesis by (intro fl_of_int) simp_all
qed

lemma srcX_exact:
  assumes d: "0 < d" and w: "0 < w" "w < 2 ^ 53" and x: "0 \<le> x" "x < d" and dvd: "d dvd w"
  shows "js_mul (of_int x) (js_div (of_int w) (of_int d)) = of_int ((x * w) div d)"
proof -
  from dvd obtain k where k: "w = d * k" by (auto simp: dvd_def)
  with d w have kpos: "0 < k" by (simp add: zero_less_mult_iff)
  have "k \<le> d * k" using d kpos by (simp add: mult_le_cancel_right1)
  with w(2) k have kb: "k < 2 ^ 53" by simp
  have q: "(of_int w :: rat) / of_int d = of_int k" using d k by simp
  have xk: "(x * w) div d = x * k" using d k by simp
  have "x * k < d * k" using x(2) kpos by simp
  with w(2) k have xb: "x * k < 2 ^ 53" by simp
  have "0 \<le> x * k" using x(1) kpos by simp
  then have "fl (of_int (x * k)) = (of_int (x * k) :: rat)" using xb by (rule fl_of_int_nonneg)
  then show ?thesis
    by (simp add: js_mul_def js_div_def q fl_of_int [OF kpos kb] xk)
qed

lemma srcX_near:
  assumes d: "0 < d" "d < 2 ^ 25" and w: "0 < w" "w < 2 ^ 25" and x: "0 \<le> x" "x < d"
  defines "p \<equiv> js_mul (of_int x) (js_div (of_int w) (of_int d))"
  shows "\<lfloor>p\<rfloor> = (x * w) div d \<or> (d dvd x * w \<and> \<lfloor>p\<rfloor> = (x * w) div d - 1)"
    and "0 \<le> \<lfloor>p\<rfloor>"
proof -
  define t :: rat where "t = of_int x * (of_int w / of_int d)"
  have ft: "\<lfloor>t\<rfloor> = (x * w) div d"
    unfolding t_def by (simp add: floor_divide_of_int_eq flip: of_int_mult)
  have both: "(\<lfloor>p\<rfloor> = (x * w) div d \<or> (d dvd x * w \<and> \<lfloor>p\<rfloor> = (x * w) div d - 1)) \<and> 0 \<le> \<lfloor>p\<rfloor>"
  proof (cases "x = 0")
    case True
    then show ?thesis by (simp add: p_def js_mul_def)
  next
    case False
    with x have xpos: "0 < x" by simp
    have r: "(0::rat) < of_int w / of_int d" using d w by simp
    have xr: "(0::rat) < of_int x" using xpos by simp
    have err: "\<bar>p - t\<bar> \<le> t / 2 ^ 51"
      unfolding p_def t_def js_mul_def js_div_def using r xr by (rule mul_fl_err)
    have dr: "(0::rat) < of_int d" using d by simp
    have "of_int x * (of_int w :: rat) < of_int d * of_int w"
      using x(2) w(1) by (simp flip: of_int_mult)
    then have tw: "t < of_int w" unfolding t_def using dr by (simp add: field_simps)
    have tpos: "0 < t" unfolding t_def using xr r by (rule mult_pos_pos)
    have w25: "(of_int w :: rat) < 2 ^ 25"
    proof -
      have "(of_int w :: rat) < of_int (2 ^ 25)" using w(2) by (simp only: of_int_less_iff)
      then show ?thesis by simp
    qed
    have d25: "(of_int d :: rat) < 2 ^ 25"
    proof -
      have "(of_int d :: rat) < of_int (2 ^ 25)" using d(2) by (simp only: of_int_less_iff)
      then show ?thesis by simp
    qed
    have "t / 2 ^ 51 < 2 ^ 25 / 2 ^ 51" using tw w25 by (intro divide_strict_right_mono) simp_all
    also have "\<dots> < 1 / 2 ^ 25" by simp
    also have "\<dots> < 1 / of_int d" using d25 dr by (simp add: field_simps)
    finally have close: "\<bar>p - t\<bar> < 1 / of_int d" using err by linarith
    have den: "of_int d * t = of_int (x * w)" unfolding t_def using dr by simp
    from floor_perturb [OF d(1) den close]
    have alt: "\<lfloor>p\<rfloor> = \<lfloor>t\<rfloor> \<or> (of_int \<lfloor>t\<rfloor> = t \<and> \<lfloor>p\<rfloor> = \<lfloor>t\<rfloor> - 1)" .
    have int_dvd: "d dvd x * w" if "of_int \<lfloor>t\<rfloor> = t"
    proof -
      have "of_int d * of_int \<lfloor>t\<rfloor> = (of_int (x * w) :: rat)" by (simp only: that den)
      then have "(of_int (d * \<lfloor>t\<rfloor>) :: rat) = of_int (x * w)" by (simp only: of_int_mult)
      then have "d * \<lfloor>t\<rfloor> = x * w" by (simp only: of_int_eq_iff)
      then show ?thesis by (metis dvd_triv_left)
    qed
    have "0 < of_int x * fl (of_int w / of_int d)" using xr fl_pos [OF r] by (rule mult_pos_pos)
    then have "0 < p" unfolding p_def js_mul_def js_div_def by (rule fl_pos)
    then have "0 \<le> \<lfloor>p\<rfloor>" by simp
    with alt int_dvd ft show ?thesis by auto
  qed
  from both show "\<lfloor>p\<rfloor> = (x * w) div d \<or> (d dvd x * w \<and> \<lfloor>p\<rfloor> = (x * w) div d - 1)" by simp
  from both show "0 \<le> \<lfloor>p\<rfloor>" by simp
qed

lemma scaled_le:
  assumes w: "0 < w" "w < 2 ^ 53" and m: "0 < m" "m < s"
  shows "Math_round (js_mul (of_int w) (js_div (of_int m) (of_int s))) \<le> w"
    and "0 \<le> Math_round (js_mul (of_int w) (js_div (of_int m) (of_int s)))"
proof -
  define r :: rat where "r = of_int m / of_int s"
  from m have s: "0 < s" by simp
  have rpos: "0 < r" unfolding r_def using m s by simp
  have "of_int m < (of_int s :: rat)" using m(2) by simp
  then have "r \<le> of_int 1" unfolding r_def using s by (simp add: field_simps)
  then have f1: "fl r \<le> of_int 1" using rpos by (intro fl_le_int) simp_all
  have fpos: "0 < fl r" using rpos by (rule fl_pos)
  have wr: "(0::rat) < of_int w" using w(1) by simp
  have zpos: "0 < of_int w * fl r" using wr fpos by (rule mult_pos_pos)
  have "of_int w * fl r \<le> of_int w * 1" using f1 wr by (intro mult_left_mono) simp_all
  then have "of_int w * fl r \<le> of_int w" by simp
  then have le: "fl (of_int w * fl r) \<le> of_int w" using zpos w(2) by (intro fl_le_int)
  have pos: "0 < fl (of_int w * fl r)" using zpos by (rule fl_pos)
  from le have "fl (of_int w * fl r) + 1 / 2 < of_int (w + 1)" by simp
  then have "\<lfloor>fl (of_int w * fl r) + 1 / 2\<rfloor> < w + 1" by (simp only: floor_less_iff)
  then show "Math_round (js_mul (of_int w) (js_div (of_int m) (of_int s))) \<le> w"
    by (simp add: Math_round_def js_mul_def js_div_def r_def)
  from pos have "0 \<le> \<lfloor>fl (of_int w * fl r) + 1 / 2\<rfloor>" by simp
  then show "0 \<le> Math_round (js_mul (of_int w) (js_div (of_int m) (of_int s)))"
    by (simp add: Math_round_def js_mul_def js_div_def r_def)
qed

lemma scaled_near:
  assumes w: "0 < w" "w \<le> s" and m: "0 < m" "m < s" and s: "s < 2 ^ 25"
  defines "p \<equiv> js_mul (of_int w) (js_div (of_int m) (of_int s))"
    and "t \<equiv> (of_int w * (of_int m / of_int s) :: rat)"
  shows "Math_round p = \<lfloor>t + 1 / 2\<rfloor> \<or>
         (of_int \<lfloor>t + 1 / 2\<rfloor> = t + 1 / 2 \<and> Math_round p = \<lfloor>t + 1 / 2\<rfloor> - 1)"
proof -
  from m have spos: "0 < s" by simp
  have sr: "(0::rat) < of_int s" using spos by simp
  have r: "(0::rat) < of_int m / of_int s" using m spos by simp
  have wr: "(0::rat) < of_int w" using w(1) by simp
  have err: "\<bar>p - t\<bar> \<le> t / 2 ^ 51"
    unfolding p_def t_def js_mul_def js_div_def using r wr by (rule mul_fl_err)
  have "of_int m / (of_int s :: rat) < 1" using m(2) spos by simp
  then have "of_int w * (of_int m / (of_int s :: rat)) < of_int w * 1"
    using wr by (intro mult_strict_left_mono)
  then have tw: "t < of_int w" by (simp add: t_def)
  have "(of_int w :: rat) \<le> of_int s" using w(2) by (simp only: of_int_le_iff)
  moreover have s25: "(of_int s :: rat) < 2 ^ 25"
  proof -
    have "(of_int s :: rat) < of_int (2 ^ 25)" using s by (simp only: of_int_less_iff)
    then show ?thesis by simp
  qed
  ultimately have t25: "t < 2 ^ 25" using tw by linarith
  have "t / 2 ^ 51 < 2 ^ 25 / 2 ^ 51" using t25 by (intro divide_strict_right_mono) simp_all
  also have "\<dots> = 1 / 2 ^ 26" by simp
  also have "\<dots> < 1 / of_int (2 * s)" using s25 sr by (simp add: field_simps)
  finally have close: "\<bar>(p + 1 / 2) - (t + 1 / 2)\<bar> < 1 / of_int (2 * s)" using err by simp
  have den: "of_int (2 * s) * (t + 1 / 2) = of_int (2 * w * m + s)"
    unfolding t_def using sr by (simp add: field_simps)
  have "0 < 2 * s" using spos by simp
  from floor_perturb [OF this den close] show ?thesis by (simp add: Math_round_def)
qed

lemma Math_round_of_int [simp]: "Math_round (of_int n) = n"
  unfolding Math_round_def by (rule floor_unique) simp_all

lemma chooseDecodeMaxDim_range:
  "256 \<le> chooseDecodeMaxDim quality maxTextureSize"
  "chooseDecodeMaxDim quality maxTextureSize \<le> 4096"
  by (auto simp: chooseDecodeMaxDim_def)

lemma scaled_dim:
  assumes w: "1 \<le> w" "w \<le> srcMax" and s: "srcMax < 2 ^ 25" and m: "256 \<le> maxDim"
  defines "scale \<equiv> (if srcMax > maxDim then js_div (of_int maxDim) (of_int srcMax) else 1)"
  defines "t \<equiv> (of_int w * min 1 (of_int maxDim / of_int srcMax) :: rat)"
  defines "dm \<equiv> max 1 (Math_round (js_mul (of_int w) scale))"
  shows "1 \<le> dm \<and> dm \<le> w \<and>
         (dm = max 1 \<lfloor>t + 1 / 2\<rfloor> \<or>
          (of_int \<lfloor>t + 1 / 2\<rfloor> = t + 1 / 2 \<and> dm = max 1 (\<lfloor>t + 1 / 2\<rfloor> - 1)))"
proof (cases "srcMax > maxDim")
  case True
  have wpos: "0 < w" and mpos: "0 < maxDim" using w m by simp_all
  have w53: "w < 2 ^ 53" using w(2) s by simp
  have sc: "scale = js_div (of_int maxDim) (of_int srcMax)" using True by (simp add: scale_def)
  have "of_int maxDim / (of_int srcMax :: rat) < 1" using True mpos by simp
  then have t: "t = of_int w * (of_int maxDim / of_int srcMax)" by (simp add: t_def)
  have "dm \<le> w" unfolding dm_def sc using scaled_le [OF wpos w53 mpos True] w(1) by auto
  moreover have "1 \<le> dm" by (simp add: dm_def)
  moreover from scaled_near [OF wpos w(2) mpos True s]
  have "dm = max 1 \<lfloor>t + 1 / 2\<rfloor> \<or>
          (of_int \<lfloor>t + 1 / 2\<rfloor> = t + 1 / 2 \<and> dm = max 1 (\<lfloor>t + 1 / 2\<rfloor> - 1))"
    unfolding dm_def sc t by auto
  ultimately show ?thesis by simp
next
  case False
  have wpos: "0 < w" using w by simp
  have w53: "w < 2 ^ 53" using w(2) s by simp
  from False w have spos: "0 < srcMax" by simp
  have "1 \<le> of_int maxDim / (of_int srcMax :: rat)" using False spos by simp
  then have t: "t = of_int w" by (simp add: t_def)
  have "js_mul (of_int w) scale = of_int w"
    using False by (simp add: scale_def js_mul_def fl_of_int [OF wpos w53])
  then have "Math_round (js_mul (of_int w) scale) = w"
    by simp
  then have "dm = w" using w(1) by (simp add: dm_def)
  moreover have "\<lfloor>t + 1 / 2\<rfloor> = w" unfolding t by linarith
  ultimately show ?thesis using w(1) by simp
qed

section \<open>Channel selection refines its specification\<close>









lemma distinct_first_seen_layers [simp]: "distinct (first_seen_layers chs)"
  by (simp add: first_seen_layers_def)














section \<open>Properties of the client\<close>

lemmas client_eval = decode_def onmessage_def settle_def pending_delete_def pending_set_def
  post_message_def new_client_def worker_error_reply_def Let_def

lemma decode_supersedes:
  assumes "pending c (req_id request) = Some h"
  shows "fst (decode c request) = next_promise c"
    and "settled c h = None \<Longrightarrow>
           settled (snd (decode c request)) h = Some (Rejected ''Decode request replaced'')"
    and "pending (snd (decode c request)) (req_id request) = Some (next_promise c)"
    and "trace (snd (decode c request)) = trace c @
           [Reject h ''Decode request replaced'', PendingDelete (req_id request),
            PendingSet (req_id request) (next_promise c), PostMessage request]"
    and "i \<noteq> req_id request \<Longrightarrow> pending (snd (decode c request)) i = pending c i"
  using assms by (simp_all add: client_eval)

lemma decode_fresh:
  assumes "pending c (req_id request) = None"
  shows "fst (decode c request) = next_promise c"
    and "settled (snd (decode c request)) = settled c"
    and "pending (snd (decode c request)) = (pending c)(req_id request \<mapsto> next_promise c)"
    and "trace (snd (decode c request)) = trace c @
           [PendingSet (req_id request) (next_promise c), PostMessage request]"
  using assms by (simp_all add: client_eval)

lemma onmessage_claims_entry:
  assumes "pending c (message_id msg) = Some h" and "settled c h = None"
  shows "settled (onmessage c msg) h =
           Some (case msg of ResultMessage r \<Rightarrow> Resolved r | ErrorMessage i m \<Rightarrow> Rejected m)"
    and "pending (onmessage c msg) (message_id msg) = None"
  using assms by (cases msg; simp add: client_eval)+

lemma onmessage_unmatched:
  "pending c (message_id msg) = None \<Longrightarrow> onmessage c msg = c"
  by (simp add: onmessage_def)

section \<open>The half-float codec on the fields of the patterns\<close>

lemma m1: "(0xff :: 32 word) = mask 8" by (simp add: mask_eq_exp_minus_1)
lemma m2: "(0x7fffff :: 32 word) = mask 23" by (simp add: mask_eq_exp_minus_1)
lemma m3: "(1 :: 32 word) = mask 1" by (simp add: mask_eq_exp_minus_1)
lemma m4: "(0x1f :: 32 word) = mask 5" by (simp add: mask_eq_exp_minus_1)
lemma m5: "(0x3ff :: 32 word) = mask 10" by (simp add: mask_eq_exp_minus_1)

lemma unat_field:
  fixes x :: "32 word"
  shows "unat (drop_bit n x AND mask k) = unat x div 2 ^ n mod 2 ^ k"
proof -
  have "drop_bit n x AND mask k = take_bit k (drop_bit n x)" by (simp only: take_bit_eq_mask)
  then have "unat (drop_bit n x AND mask k) = take_bit k (drop_bit n (unat x))"
    by (simp only: unsigned_take_bit_eq unat_drop_bit_eq)
  then show ?thesis by (simp only: take_bit_eq_mod drop_bit_eq_div)
qed

lemma unat_low:
  fixes x :: "32 word"
  shows "unat (x AND mask k) = unat x mod 2 ^ k"
  using unat_field [of 0 x k] by simp

lemma or_push_bit_nat:
  fixes a b :: nat
  assumes "b < 2 ^ n"
  shows "push_bit n a OR b = a * 2 ^ n + b"
proof -
  have b: "take_bit n b = b" using assms by (simp add: take_bit_nat_eq_self_iff)
  have "push_bit n a AND take_bit n b = 0"
    by (simp add: bit_eq_iff bit_simps)
  then have "push_bit n a + b = push_bit n a OR b"
    unfolding b by (rule disjunctive_add_eq_or)
  then show ?thesis by (simp add: push_bit_eq_mult)
qed

lemma or_push_bit_word:
  fixes a b :: "32 word"
  assumes "unat b < 2 ^ n" and "unat a * 2 ^ n + unat b < 2 ^ 32"
  shows "unat (push_bit n a OR b) = unat a * 2 ^ n + unat b"
proof -
  have "unat (push_bit n a OR b) = take_bit 32 (push_bit n (unat a)) OR unat b"
    by (simp add: unsigned_or_eq unsigned_push_bit_eq)
  also have "take_bit 32 (push_bit n (unat a)) = push_bit n (unat a)"
    using assms(2) by (simp add: take_bit_nat_eq_self_iff push_bit_eq_mult)
  also have "push_bit n (unat a) OR unat b = unat a * 2 ^ n + unat b"
    using assms(1) by (rule or_push_bit_nat)
  finally show ?thesis .
qed

lemma f32_sign_word: "unat (drop_bit 31 x AND (1 :: 32 word)) = f32_sign x"
proof -
  have "unat x < 2 ^ 32" using unsigned_less [of x] by simp
  then have "unat x div 2 ^ 31 < 2" by (simp add: less_mult_imp_div_less)
  then show ?thesis unfolding m3 unat_field f32_sign_def by simp
qed

lemma f32_exp_word: "unat (drop_bit 23 x AND (0xff :: 32 word)) = f32_exp x"
  unfolding m1 unat_field f32_exp_def by simp

lemma f32_frac_word: "unat (x AND (0x7fffff :: 32 word)) = f32_frac x"
  unfolding m2 unat_low f32_frac_def by simp

lemma f32_field_bounds: "f32_sign x < 2" "f32_exp x < 256" "f32_frac x < 2 ^ 23"
proof -
  have "unat x < 2 ^ 32" using unsigned_less [of x] by simp
  then show "f32_sign x < 2" by (simp add: f32_sign_def less_mult_imp_div_less)
qed (simp_all add: f32_exp_def f32_frac_def)

lemma word_neq_0_unat: "(w :: 32 word) \<noteq> 0 \<longleftrightarrow> unat w \<noteq> 0"
  by (simp add: unsigned_eq_0_iff)

lemma word_eq_numeral_unat: "(w :: 32 word) = v \<longleftrightarrow> unat w = unat v"
  by (rule word_unat_eq_iff)

lemma binary16_value_alt:
  "binary16_value S E M =
     (let sgn = (if S \<noteq> 0 then - 1 else 1 :: rat)
      in if E = 0 then
           (if M = 0 then (if S \<noteq> 0 then NegZero else Num 0)
            else Num (sgn * 2 powi (- 14) * (of_nat M / 1024)))
         else if E = 31 then
           (if M = 0 then (if S \<noteq> 0 then NegInfinity else PosInfinity) else NaN)
         else Num (sgn * 2 powi (int E - 15) * (1 + of_nat M / 1024)))"
proof -
  have p1: "(2::rat) powi (- 14) * (of_nat M / 1024) = of_nat M * 2 powi (- 24)"
    by (simp add: power_int_minus)
  have p2: "(2::rat) powi (int E - 15) * (1 + of_nat M / 1024)
        = of_nat (1024 + M) * 2 powi (int E - 25)"
  proof -
    have "(2::rat) powi (int E - 15) = 2 powi (int E - 25) * 2 powi 10"
      by (simp only: powi2_cancel) simp
    then show ?thesis by (simp add: field_simps)
  qed
  show ?thesis
    unfolding Let_def binary16_value_def signed_def
    by (simp add: p1 p2 flip: mult.assoc)
qed

lemma halfToFloat_fields:
  "halfToFloat h =
     binary16_value (unat h div 2 ^ 15 mod 2) (unat h div 2 ^ 10 mod 32) (unat h mod 2 ^ 10)"
proof -
  define s where "s = drop_bit 15 h AND (1 :: 32 word)"
  define e where "e = drop_bit 10 h AND (0x1f :: 32 word)"
  define m where "m = h AND (0x3ff :: 32 word)"
  have s: "unat s = unat h div 2 ^ 15 mod 2" unfolding s_def m3 unat_field by simp
  have e: "unat e = unat h div 2 ^ 10 mod 32" unfolding e_def m4 unat_field by simp
  have m: "unat m = unat h mod 2 ^ 10" unfolding m_def m5 unat_low by simp
  have z: "s \<noteq> 0 \<longleftrightarrow> unat s \<noteq> 0" "e = 0 \<longleftrightarrow> unat e = 0" "m = 0 \<longleftrightarrow> unat m = 0"
    by (simp_all add: unsigned_eq_0_iff)
  have z1: "e = 31 \<longleftrightarrow> unat e = 31"
    by (simp add: word_unat_eq_iff)
  have "halfToFloat h =
     (let sgn = (if s \<noteq> 0 then - 1 else 1 :: rat)
      in if e = 0 then
           (if m = 0 then (if s \<noteq> 0 then NegZero else Num 0)
            else Num (sgn * 2 powi (- 14) * (of_nat (unat m) / 1024)))
         else if e = 31 then
           (if m = 0 then (if s \<noteq> 0 then NegInfinity else PosInfinity) else NaN)
         else Num (sgn * 2 powi (int (unat e) - 15) * (1 + of_nat (unat m) / 1024)))"
    unfolding halfToFloat_def s_def e_def m_def Let_def ..
  also have "\<dots> = binary16_value (unat s) (unat e) (unat m)"
    unfolding binary16_value_alt z z1 ..
  finally show ?thesis by (simp only: s e m)
qed

lemma float32_value_fields:
  "float32_value x = binary32_value (f32_sign x) (f32_exp x) (f32_frac x)"
proof -
  define s where "s = drop_bit 31 x AND (1 :: 32 word)"
  define e where "e = drop_bit 23 x AND (0xff :: 32 word)"
  define m where "m = x AND (0x7fffff :: 32 word)"
  have s: "unat s = f32_sign x" unfolding s_def by (rule f32_sign_word)
  have e: "unat e = f32_exp x" unfolding e_def by (rule f32_exp_word)
  have m: "unat m = f32_frac x" unfolding m_def by (rule f32_frac_word)
  have z: "s \<noteq> 0 \<longleftrightarrow> unat s \<noteq> 0" "e = 0 \<longleftrightarrow> unat e = 0" "m = 0 \<longleftrightarrow> unat m = 0"
    "m \<noteq> 0 \<longleftrightarrow> unat m \<noteq> 0"
    by (simp_all add: unsigned_eq_0_iff)
  have z1: "e = 255 \<longleftrightarrow> unat e = 255"
    by (simp add: word_unat_eq_iff)
  have alt: "binary32_value S E M =
     (let sgn = (if S \<noteq> 0 then - 1 else 1 :: rat)
      in if E = 255 then
           (if M \<noteq> 0 then NaN else if S \<noteq> 0 then NegInfinity else PosInfinity)
         else if E = 0 then
           (if M = 0 then (if S \<noteq> 0 then NegZero else Num 0)
            else Num (sgn * of_nat M * 2 powi (- 149)))
         else Num (sgn * (1 + of_nat M / 2 ^ 23) * 2 powi (int E - 127)))" for S E M
  proof -
    have pw: "(2::rat) powi (int E - 127) = 8388608 * 2 powi (int E - 150)"
    proof -
      have "(2::rat) powi (int E - 127) = 2 powi (int E - 150) * 2 powi 23"
        by (simp only: powi2_cancel) simp
      then show ?thesis by simp
    qed
    show ?thesis
      unfolding Let_def binary32_value_def signed_def
      by (simp add: pw field_simps)
  qed
  have "float32_value x =
     (let sgn = (if s \<noteq> 0 then - 1 else 1 :: rat)
      in if e = 255 then
           (if m \<noteq> 0 then NaN else if s \<noteq> 0 then NegInfinity else PosInfinity)
         else if e = 0 then
           (if m = 0 then (if s \<noteq> 0 then NegZero else Num 0)
            else Num (sgn * of_nat (unat m) * 2 powi (- 149)))
         else Num (sgn * (1 + of_nat (unat m) / 2 ^ 23) * 2 powi (int (unat e) - 127)))"
    unfolding float32_value_def s_def e_def m_def Let_def ..
  also have "\<dots> = binary32_value (unat s) (unat e) (unat m)"
    unfolding alt z z1 ..
  finally show ?thesis by (simp only: s e m)
qed

lemma unat_push_bit_small:
  fixes a :: "32 word"
  assumes "unat a * 2 ^ n < 2 ^ 32"
  shows "unat (push_bit n a) = unat a * 2 ^ n"
  using or_push_bit_word [of 0 n a] assms by simp

lemma sign_or:
  fixes s b :: "32 word"
  assumes "unat s < 2" and "unat b < 2 ^ 15"
  shows "unat (push_bit 15 s OR b) = unat s * 32768 + unat b"
proof -
  from assms(1) have "unat s * 2 ^ 15 \<le> 1 * 2 ^ 15" by (intro mult_le_mono1) simp
  with assms(2) have "unat s * 2 ^ 15 + unat b < 2 ^ 32" by simp
  from or_push_bit_word [OF assms(2) this] show ?thesis by simp
qed

lemma unat_small_sum:
  fixes a b :: "32 word"
  assumes "unat a + unat b < 2 ^ 32"
  shows "unat (a + b) = unat a + unat b"
  using assms unat_add_lem [of a b] by simp

lemma implicit_bit:
  fixes m :: "32 word"
  assumes "unat m < 2 ^ 23"
  shows "unat (m OR 0x800000) = 2 ^ 23 + unat m"
proof -
  have "(0x800000 :: 32 word) = push_bit 23 1" by simp
  then have "m OR 0x800000 = push_bit 23 1 OR m" by (simp only: or.commute)
  moreover have "unat (push_bit 23 (1 :: 32 word) OR m) = unat (1 :: 32 word) * 2 ^ 23 + unat m"
    using assms by (intro or_push_bit_word) simp_all
  ultimately show ?thesis by simp
qed

lemma exp_or_carry:
  fixes he k :: "32 word"
  assumes he: "unat he \<le> 30" and k: "unat k \<le> 1024"
  shows "unat (push_bit 10 he OR k) =
           (if unat k < 1024 then unat he * 1024 + unat k
            else if even (unat he) then (unat he + 1) * 1024 else unat he * 1024)"
proof (cases "unat k < 1024")
  case True
  then have "unat k < 2 ^ 10" by simp
  moreover have "unat he * 2 ^ 10 + unat k < 2 ^ 32" using he True by simp
  ultimately have "unat (push_bit 10 he OR k) = unat he * 2 ^ 10 + unat k"
    by (rule or_push_bit_word)
  with True show ?thesis by simp
next
  case False
  with k have "unat k = unat (1024 :: 32 word)" by simp
  then have "k = 1024" by (simp only: word_unat_eq_iff)
  then have k1: "k = push_bit 10 1" by simp
  have "push_bit 10 he OR k = push_bit 10 (he OR 1)"
    unfolding k1 by (simp only: push_bit_or)
  moreover have u: "unat (he OR 1) = unat he + of_bool (even (unat he))"
  proof -
    have "unat (he OR 1) = unat he OR unat (1 :: 32 word)" by (simp only: unsigned_or_eq)
    also have "\<dots> = unat he OR 1" by simp
    also have "\<dots> = unat he + of_bool (even (unat he))" by (simp only: or_one_eq)
    finally show ?thesis .
  qed
  moreover have "unat (he OR 1) * 2 ^ 10 < 2 ^ 32" using he unfolding u by simp
  ultimately have "unat (push_bit 10 he OR k) = (unat he + of_bool (even (unat he))) * 2 ^ 10"
    using unat_push_bit_small [of "he OR 1" 10] by simp
  with False show ?thesis by simp
qed

lemma unat_drop:
  fixes w :: "32 word"
  shows "unat (drop_bit n w) = unat w div 2 ^ n"
proof -
  have "unat (drop_bit n w) = drop_bit n (unat w)" by (rule unat_drop_bit_eq)
  then show ?thesis by (simp only: drop_bit_eq_div)
qed

lemma floatToHalf_unat:
  "unat (floatToHalf x) = floatToHalf_fields (f32_sign x) (f32_exp x) (f32_frac x)"
proof -
  define s where "s = drop_bit 31 x AND (1 :: 32 word)"
  define e where "e = drop_bit 23 x AND (0xff :: 32 word)"
  define m where "m = x AND (0x7fffff :: 32 word)"
  define S E M where "S = f32_sign x" and "E = f32_exp x" and "M = f32_frac x"
  have s: "unat s = S" unfolding s_def S_def by (rule f32_sign_word)
  have e: "unat e = E" unfolding e_def E_def by (rule f32_exp_word)
  have m: "unat m = M" unfolding m_def M_def by (rule f32_frac_word)
  have S2: "S < 2" and E256: "E < 256" and M23: "M < 2 ^ 23"
    unfolding S_def E_def M_def by (rule f32_field_bounds)+
  have s2: "unat s < 2" using s S2 by simp
  have e255: "e = 255 \<longleftrightarrow> E = 255" unfolding e [symmetric] by (simp add: word_unat_eq_iff)
  have m0: "m \<noteq> 0 \<longleftrightarrow> M \<noteq> 0" unfolding m [symmetric] by (simp add: unsigned_eq_0_iff)
  have code: "floatToHalf x =
      (if e = 255 then
           (if m \<noteq> 0 then push_bit 15 s OR 0x7e00
            else push_bit 15 s OR 0x7c00)
         else
           let exp = int (unat e) - 127 in
           if exp < - 14 then
             (if exp < - 24 then push_bit 15 s
              else
                let mantissa = m OR 0x800000;
                    shift = - exp - 14;
                    halfMantissa = drop_bit (nat (shift + 13)) mantissa;
                    roundBit = drop_bit (nat (shift + 12)) mantissa AND 1
                in push_bit 15 s OR (halfMantissa + roundBit))
           else if exp > 15 then push_bit 15 s OR 0x7c00
           else
             let halfExp = word_of_int (exp + 15) AND 0x1f;
                 halfMantissa = drop_bit 13 m;
                 roundBit = drop_bit 12 m AND 1
             in push_bit 15 s OR push_bit 10 halfExp OR (halfMantissa + roundBit))"
    unfolding floatToHalf_def s_def e_def m_def Let_def ..
  have inf: "unat (push_bit 15 s OR 0x7c00) = S * 32768 + 0x7c00"
    using sign_or [OF s2, of "0x7c00"] s by simp
  have nan: "unat (push_bit 15 s OR 0x7e00) = S * 32768 + 0x7e00"
    using sign_or [OF s2, of "0x7e00"] s by simp
  have zero: "unat (push_bit 15 s) = S * 32768"
    using sign_or [OF s2, of 0] s by simp
  show ?thesis
  proof (cases "E = 255")
    case True
    then show ?thesis
      using inf nan by (simp add: code e255 m0 floatToHalf_fields_def S_def E_def M_def)
  next
    case ne: False
    show ?thesis
    proof (cases "E < 103")
      case True
      then show ?thesis
        using zero ne
        by (simp add: code e255 e floatToHalf_fields_def Let_def S_def [symmetric] E_def [symmetric])
    next
      case ge103: False
      show ?thesis
      proof (cases "E < 113")
        case True
        define M' where "M' = m OR (0x800000 :: 32 word)"
        have M': "unat M' = 2 ^ 23 + M"
          unfolding M'_def using implicit_bit [of m] m M23 by simp
        have sh13: "nat (126 - int E) = 126 - E"
          and sh12: "nat (125 - int E) = 125 - E"
          using True by simp_all
        define hm where "hm = drop_bit (126 - E) M'"
        define rb where "rb = drop_bit (125 - E) M' AND (1 :: 32 word)"
        have hm: "unat hm = (2 ^ 23 + M) div 2 ^ (126 - E)"
          unfolding hm_def unat_drop M' ..
        have rb: "unat rb = (2 ^ 23 + M) div 2 ^ (125 - E) mod 2"
          unfolding rb_def m3 unat_field M' by simp
        have "(2::nat) ^ 14 \<le> 2 ^ (126 - E)"
          using True by (intro power_increasing) simp_all
        then have "(2 ^ 23 + M) div 2 ^ (126 - E) \<le> (2 ^ 23 + M) div 2 ^ 14"
          by (intro div_le_mono2) simp_all
        also have "\<dots> < 2 ^ 10" using M23 by (simp add: less_mult_imp_div_less)
        finally have hm10: "unat hm < 2 ^ 10" unfolding hm .
        have rb1: "unat rb \<le> 1" unfolding rb by simp
        have sum: "unat (hm + rb) = unat hm + unat rb"
          using hm10 rb1 by (intro unat_small_sum) simp
        have "unat (hm + rb) < 2 ^ 15" using hm10 rb1 unfolding sum by simp
        from sign_or [OF s2 this]
        have "unat (push_bit 15 s OR (hm + rb)) = S * 32768 + (unat hm + unat rb)"
          by (simp add: s sum)
        moreover have "floatToHalf x = push_bit 15 s OR (hm + rb)"
          using True ge103 ne
          by (simp add: code e255 e Let_def sh13 sh12 hm_def rb_def M'_def)
        ultimately show ?thesis
          using True ge103 ne
          by (simp add: floatToHalf_fields_def hm rb S_def [symmetric] E_def [symmetric]
              M_def [symmetric])
      next
        case ge113: False
        show ?thesis
        proof (cases "142 < E")
          case True
          then show ?thesis
            using inf ne ge113
            by (simp add: code e255 e floatToHalf_fields_def Let_def S_def [symmetric]
                E_def [symmetric])
        next
          case le142: False
          define he where "he = (word_of_int (int E - 127 + 15) AND 0x1f :: 32 word)"
          define hm where "hm = drop_bit 13 m"
          define rb where "rb = drop_bit 12 m AND (1 :: 32 word)"
          have "int E - 127 + 15 = int (E - 112)" using ge113 by simp
          then have "word_of_int (int E - 127 + 15) = (word_of_nat (E - 112) :: 32 word)"
            by (simp only: of_int_of_nat_eq)
          then have "unat he = unat (word_of_nat (E - 112) :: 32 word) mod 2 ^ 5"
            unfolding he_def m4 unat_low by simp
          also have "unat (word_of_nat (E - 112) :: 32 word) = E - 112"
            using le142 by (simp add: unsigned_of_nat take_bit_nat_eq_self_iff)
          finally have he: "unat he = E - 112" using le142 by simp
          have hm: "unat hm = M div 2 ^ 13"
            unfolding hm_def unat_drop m ..
          have rb: "unat rb = M div 2 ^ 12 mod 2"
            unfolding rb_def m3 unat_field m by simp
          have hm10: "unat hm < 2 ^ 10"
            unfolding hm using M23 by (simp add: less_mult_imp_div_less)
          have rb1: "unat rb \<le> 1" unfolding rb by simp
          have sum: "unat (hm + rb) = unat hm + unat rb"
            using hm10 rb1 by (intro unat_small_sum) simp
          have k: "unat (hm + rb) \<le> 1024" using hm10 rb1 unfolding sum by simp
          have he30: "unat he \<le> 30" using he le142 by simp
          note inner = exp_or_carry [OF he30 k]
          have "unat (push_bit 10 he OR (hm + rb)) < 2 ^ 15"
            unfolding inner using he30 by (auto simp: not_less)
          from sign_or [OF s2 this]
          have "unat (push_bit 15 s OR (push_bit 10 he OR (hm + rb))) =
              S * 32768 + unat (push_bit 10 he OR (hm + rb))"
            by (simp add: s)
          moreover have "floatToHalf x = push_bit 15 s OR (push_bit 10 he OR (hm + rb))"
            using le142 ge113 ne
            by (simp add: code e255 e Let_def he_def hm_def rb_def or.assoc)
          ultimately show ?thesis
            using le142 ge113 ne
            by (simp add: floatToHalf_fields_def Let_def inner sum hm rb he
                S_def [symmetric] E_def [symmetric] M_def [symmetric])
        qed
      qed
    qed
  qed
qed

lemma half_fields:
  assumes "S < 2" and "H < 32" and "K < 1024"
  shows "(S * 32768 + (H * 1024 + K)) div 2 ^ 15 mod 2 = (S::nat)"
    and "(S * 32768 + (H * 1024 + K)) div 2 ^ 10 mod 32 = H"
    and "(S * 32768 + (H * 1024 + K)) mod 2 ^ 10 = K"
proof -
  have R: "S * 32768 + (H * 1024 + K) = (S * 32 + H) * 1024 + K" by simp
  have p10: "(2::nat) ^ 10 = 1024" and p15: "(2::nat) ^ 15 = 1024 * 32" by simp_all
  have d10: "((S * 32 + H) * 1024 + K) div 1024 = S * 32 + H" using assms(3) by simp
  have m10: "((S * 32 + H) * 1024 + K) mod 1024 = K"
    by (simp only: mod_mult_self3 mod_less assms(3))
  have h: "(S * 32 + H) mod 32 = H" using assms(2) by simp
  have s: "(S * 32 + H) div 32 mod 2 = S" using assms(1,2) by simp
  show "(S * 32768 + (H * 1024 + K)) mod 2 ^ 10 = K"
    by (simp only: R p10 m10)
  show "(S * 32768 + (H * 1024 + K)) div 2 ^ 10 mod 32 = H"
    by (simp only: R p10 d10 h)
  show "(S * 32768 + (H * 1024 + K)) div 2 ^ 15 mod 2 = S"
    by (simp only: R p15 div_mult2_eq d10 s)
qed

lemma halfToFloat_of_fields:
  assumes "unat h = S * 32768 + (H * 1024 + K)" and "S < 2" and "H < 32" and "K < 1024"
  shows "halfToFloat h = binary16_value S H K"
  unfolding halfToFloat_fields assms(1) half_fields [OF assms(2,3,4)] ..

lemma round_shift:
  fixes M :: nat
  assumes "0 < n"
  shows "\<lfloor>of_nat M / 2 ^ n + 1 / 2 :: rat\<rfloor> = int (M div 2 ^ n + M div 2 ^ (n - 1) mod 2)"
proof -
  obtain j where n: "n = Suc j" using assms by (cases n) auto
  define q where "q = M div 2 ^ j"
  define r where "r = M mod 2 ^ j"
  have M: "M = q * 2 ^ j + r" and r: "r < 2 ^ j"
    unfolding q_def r_def by (simp_all add: div_mult_mod_eq)
  define a where "a = q div 2"
  define b where "b = q mod 2"
  have q: "q = 2 * a + b" and b: "b < 2" by (simp_all add: a_def b_def)
  have d1: "M div 2 ^ n = a"
    unfolding n a_def q_def power_Suc2 div_mult2_eq ..
  have "(of_nat M / 2 ^ n + 1 / 2 :: rat) = of_nat (M + 2 ^ j) / of_nat (2 ^ n)"
    by (simp add: n field_simps)
  then have "\<lfloor>of_nat M / 2 ^ n + 1 / 2 :: rat\<rfloor> = int ((M + 2 ^ j) div 2 ^ n)"
    by (simp only: floor_divide_of_nat_eq)
  also have "(M + 2 ^ j) div 2 ^ n = a + b"
  proof -
    define X where "X = (b + 1) * 2 ^ j + r"
    have eq: "M + 2 ^ j = a * 2 ^ n + X"
      unfolding M q n X_def by (simp add: algebra_simps)
    have "X div 2 ^ n = b"
    proof (cases "b = 0")
      case True
      with r show ?thesis by (simp add: n X_def)
    next
      case False
      with b have b1: "b = 1" by simp
      then have "X = 2 ^ n + r" by (simp add: n X_def)
      moreover have "r < 2 ^ n" using r by (simp add: n)
      ultimately show ?thesis using b1 by simp
    qed
    moreover have "(a * 2 ^ n + X) div 2 ^ n = a + X div 2 ^ n" by simp
    ultimately show ?thesis by (simp only: eq)
  qed
  finally have F: "\<lfloor>of_nat M / 2 ^ n + 1 / 2 :: rat\<rfloor> = int (a + b)" .
  have d2: "M div 2 ^ (n - 1) mod 2 = b" by (simp add: n b_def q_def)
  show ?thesis unfolding F d1 d2 ..
qed

lemma powi_shift: "of_nat (a * 2 ^ n) * (2::rat) powi k = of_nat a * 2 powi (k + int n)"
proof -
  have "(2::rat) powi (int n + k) = 2 ^ n * 2 powi k"
    by (simp only: powi2_cancel [symmetric] power_int_of_nat)
  then show ?thesis by (simp add: add.commute)
qed

lemma half_exact_round_trip:
  assumes "half_exact x"
  shows "halfToFloat (floatToHalf x) = float32_value x"
proof -
  define s where "s = f32_sign x"
  define e where "e = f32_exp x"
  define m where "m = f32_frac x"
  have b: "s < 2" "e < 256" "m < 2 ^ 23"
    unfolding s_def e_def m_def by (rule f32_field_bounds)+
  have U: "unat (floatToHalf x) = floatToHalf_fields s e m"
    unfolding s_def e_def m_def by (rule floatToHalf_unat)
  have V: "float32_value x = binary32_value s e m"
    unfolding s_def e_def m_def by (rule float32_value_fields)
  from assms consider
      (zero) "e = 0" "m = 0"
    | (normal) "113 \<le> e" "e \<le> 142" "m mod 2 ^ 13 = 0"
    | (subnormal) "103 \<le> e" "e \<le> 112" "(2 ^ 23 + m) mod 2 ^ (126 - e) = 0"
    unfolding half_exact_def Let_def s_def e_def m_def by argo
  then show ?thesis
  proof cases
    case zero
    have "unat (floatToHalf x) = s * 32768 + (0 * 1024 + 0)"
      unfolding U floatToHalf_fields_def using zero by simp
    then have "halfToFloat (floatToHalf x) = binary16_value s 0 0"
      using b(1) by (rule halfToFloat_of_fields) simp_all
    then show ?thesis
      unfolding V using zero by (simp add: binary16_value_def binary32_value_def)
  next
    case normal
    define q where "q = m div 2 ^ 13"
    have mq: "m = q * 2 ^ 13"
      unfolding q_def using normal(3) by (metis add.right_neutral div_mult_mod_eq)
    have q: "q < 1024" using b(3) unfolding mq by simp
    have r: "m div 2 ^ 12 mod 2 = 0" unfolding mq by simp
    have he: "e - 112 < 32" "e - 112 \<noteq> 0" "e - 112 \<noteq> 31" using normal by simp_all
    have "floatToHalf_fields s e m = s * 32768 + ((e - 112) * 1024 + q)"
      unfolding floatToHalf_fields_def Let_def r q_def [symmetric]
      using normal q by simp
    then have "halfToFloat (floatToHalf x) = binary16_value s (e - 112) q"
      unfolding U [symmetric] using b(1) he(1) q by (rule halfToFloat_of_fields)
    also have "\<dots> = Num (signed s (of_nat (1024 + q) * 2 powi (int (e - 112) - 25)))"
      unfolding binary16_value_def using he by simp
    also have "of_nat (1024 + q) * (2::rat) powi (int (e - 112) - 25)
        = of_nat (2 ^ 23 + m) * 2 powi (int e - 150)"
    proof -
      have "2 ^ 23 + m = (1024 + q) * 2 ^ 13" unfolding mq by simp
      moreover have "int e - 150 + int 13 = int (e - 112) - 25" using normal by simp
      ultimately show ?thesis by (simp only: powi_shift)
    qed
    also have "Num (signed s (of_nat (2 ^ 23 + m) * 2 powi (int e - 150))) = binary32_value s e m"
      unfolding binary32_value_def using normal by simp
    finally show ?thesis unfolding V .
  next
    case subnormal
    define n where "n = 126 - e"
    define q where "q = (2 ^ 23 + m) div 2 ^ n"
    have n: "14 \<le> n" "n \<le> 23" using subnormal by (simp_all add: n_def)
    have Mq: "2 ^ 23 + m = q * 2 ^ n"
      unfolding q_def using subnormal(3) unfolding n_def [symmetric]
      by (metis add.right_neutral div_mult_mod_eq)
    have n1: "n = Suc (n - 1)" using n by simp
    have "(2 ^ 23 + m) div 2 ^ (n - 1) = q * 2"
    proof -
      have "2 ^ n = 2 * (2::nat) ^ (n - 1)"
        by (subst n1) (simp only: power_Suc)
      then have A: "q * 2 ^ n = (q * 2) * 2 ^ (n - 1)" by (simp only: mult.assoc)
      have "(q * 2) * 2 ^ (n - 1) div 2 ^ (n - 1) = q * 2" by simp
      then show ?thesis by (simp only: Mq A)
    qed
    then have r: "(2 ^ 23 + m) div 2 ^ (125 - e) mod 2 = 0"
      using subnormal by (simp add: n_def)
    have q0: "q \<noteq> 0" using Mq by (cases "q = 0") simp_all
    have q: "q < 1024"
    proof (rule ccontr)
      assume "\<not> q < 1024"
      then have "1024 * 2 ^ 14 \<le> q * (2::nat) ^ n"
        using n(1) by (intro mult_mono power_increasing) simp_all
      then show False using b(3) unfolding Mq [symmetric] by simp
    qed
    have "floatToHalf_fields s e m = s * 32768 + (0 * 1024 + q)"
      unfolding floatToHalf_fields_def Let_def r q_def n_def
      using subnormal by simp
    then have "halfToFloat (floatToHalf x) = binary16_value s 0 q"
      unfolding U [symmetric] using b(1) _ q by (rule halfToFloat_of_fields) simp
    also have "\<dots> = Num (signed s (of_nat q * 2 powi (- 24)))"
      unfolding binary16_value_def using q0 by simp
    also have "of_nat q * (2::rat) powi (- 24) = of_nat (2 ^ 23 + m) * 2 powi (int e - 150)"
    proof -
      have "int e - 150 + int n = - 24" using subnormal by (simp add: n_def)
      then show ?thesis by (simp only: Mq powi_shift)
    qed
    also have "Num (signed s (of_nat (2 ^ 23 + m) * 2 powi (int e - 150))) = binary32_value s e m"
      unfolding binary32_value_def using subnormal by simp
    finally show ?thesis unfolding V .
  qed
qed

lemma signed_eq:
  assumes "signed s a = signed S b" and "0 < a" and "0 < b"
  shows "a = b"
  using assms by (auto simp: signed_def split: if_splits)

lemma powi_move:
  assumes "a * (2::rat) powi p = b * 2 powi q"
  shows "a * 2 powi (p - q) = b"
proof -
  have "a * 2 powi (p - q) = (a * 2 powi p) * 2 powi (- q)"
    by (simp only: mult.assoc powi2_cancel) simp
  also have "\<dots> = b * (2 powi q * 2 powi (- q))"
    by (simp only: assms mult.assoc)
  also have "\<dots> = b" by (simp only: powi2_cancel) simp
  finally show ?thesis .
qed

lemma scale_upper:
  fixes M K :: nat
  assumes eq: "of_nat M * (2::rat) powi d = of_nat K" and M: "2 ^ a \<le> M" and K: "K < 2 ^ c"
  shows "int a + d < int c"
proof (rule ccontr)
  assume "\<not> int a + d < int c"
  then have "(2::rat) powi (int c) \<le> 2 powi (int a + d)"
    by (intro power_int_increasing) simp_all
  also have "\<dots> = 2 ^ a * 2 powi d"
    by (simp only: powi2_cancel [symmetric] power_int_of_nat)
  also have "\<dots> \<le> of_nat M * 2 powi d"
  proof -
    have "(2::rat) ^ a \<le> of_nat M" using M by (metis of_nat_le_iff of_nat_numeral of_nat_power)
    then show ?thesis by (intro mult_right_mono) simp_all
  qed
  also have "\<dots> = of_nat K" by (rule eq)
  also have "\<dots> < (2::rat) ^ c" using K by (metis of_nat_less_iff of_nat_numeral of_nat_power)
  finally show False by (simp add: power_int_of_nat)
qed

lemma scale_lower:
  fixes M K :: nat
  assumes eq: "of_nat M * (2::rat) powi d = of_nat K" and M: "M < 2 ^ a" and K: "2 ^ c \<le> K"
  shows "int c < int a + d"
proof (rule ccontr)
  assume "\<not> int c < int a + d"
  then have le: "(2::rat) powi (int a + d) \<le> 2 powi (int c)"
    by (intro power_int_increasing) simp_all
  have "(2::rat) ^ c \<le> of_nat K" using K by (metis of_nat_le_iff of_nat_numeral of_nat_power)
  also have "\<dots> = of_nat M * 2 powi d" by (rule eq [symmetric])
  also have "\<dots> < 2 ^ a * 2 powi d"
  proof -
    have "of_nat M < (2::rat) ^ a" using M by (metis of_nat_less_iff of_nat_numeral of_nat_power)
    then show ?thesis by (intro mult_strict_right_mono) simp_all
  qed
  also have "\<dots> = 2 powi (int a + d)"
    by (simp only: powi2_cancel [symmetric] power_int_of_nat)
  also note le
  finally show False by (simp add: power_int_of_nat)
qed

lemma scale_exact:
  fixes M K :: nat
  assumes "of_nat M * (2::rat) powi (- int n) = of_nat K"
  shows "M = K * 2 ^ n"
proof -
  have "of_nat M * (2::rat) powi (- int n) = of_nat K * 2 powi 0" using assms by simp
  then have "of_nat K * (2::rat) powi (0 - (- int n)) = of_nat M" by (rule powi_move [OF sym])
  then have "(of_nat (K * 2 ^ n) :: rat) = of_nat M" by (simp add: power_int_of_nat)
  then show ?thesis by (simp only: of_nat_eq_iff)
qed

lemma binary16_value_cases:
  assumes "binary16_value S H K = Num q" and "q \<noteq> 0" and "K < 1024" and "H < 32"
  obtains k h where "q = signed S (of_nat k * 2 powi h)" and "0 < k" and "k < 2 ^ 11"
    and "H = 0 \<and> k = K \<and> h = - 24 \<or> 0 < H \<and> H < 31 \<and> k = 1024 + K \<and> h = int H - 25"
proof -
  consider (z) "H = 0" "K = 0" | (s) "H = 0" "K \<noteq> 0" | (i) "H = 31" | (n) "H \<noteq> 0" "H \<noteq> 31"
    by blast
  then show thesis
  proof cases
    case z
    then show thesis using assms by (simp add: binary16_value_def split: if_splits)
  next
    case s
    then have "q = signed S (of_nat K * 2 powi (- 24))"
      using assms(1) by (simp add: binary16_value_def)
    then show thesis using s assms(3) by (intro that [of K "- 24"]) simp_all
  next
    case i
    then show thesis using assms by (simp add: binary16_value_def split: if_splits)
  next
    case n
    then have "q = signed S (of_nat (1024 + K) * 2 powi (int H - 25))"
      using assms(1) by (simp add: binary16_value_def)
    moreover have "0 < H \<and> H < 31" using n assms(4) by arith
    ultimately show thesis using assms(3)
      by (intro that [of "1024 + K" "int H - 25"]) simp_all
  qed
qed

lemma representable_fields:
  assumes eq: "binary16_value S H K = binary32_value s e m"
    and H: "H < 32" and K: "K < 1024" and e: "e \<noteq> 255" "e < 256" and m: "m < 2 ^ 23"
  shows "(e = 0 \<and> m = 0) \<or>
         (113 \<le> e \<and> e \<le> 142 \<and> m mod 2 ^ 13 = 0) \<or>
         (103 \<le> e \<and> e \<le> 112 \<and> (2 ^ 23 + m) mod 2 ^ (126 - e) = 0)"
proof (cases "e = 0 \<and> m = 0")
  case True
  then show ?thesis by simp
next
  case False
  define M where "M = (if e = 0 then m else 2 ^ 23 + m)"
  define p where "p = (if e = 0 then - 149 else int e - 150)"
  have M0: "0 < M" using False by (cases "e = 0") (simp_all add: M_def)
  have M24: "M < 2 ^ 24" using m by (simp add: M_def)
  have v: "binary32_value s e m = Num (signed s (of_nat M * 2 powi p))"
    using e False by (cases "e = 0") (simp_all add: binary32_value_def M_def p_def)
  have nz: "signed s (of_nat M * 2 powi p) \<noteq> 0"
    using M0 by (simp add: signed_def)
  from eq v have "binary16_value S H K = Num (signed s (of_nat M * 2 powi p))" by simp
  from binary16_value_cases [OF this nz K H]
  obtain k h where kh: "signed s (of_nat M * 2 powi p) = signed S (of_nat k * 2 powi h)"
      "0 < k" "k < 2 ^ 11"
      "H = 0 \<and> k = K \<and> h = - 24 \<or> 0 < H \<and> H < 31 \<and> k = 1024 + K \<and> h = int H - 25"
    by blast
  have "of_nat M * (2::rat) powi p = of_nat k * 2 powi h"
  proof (rule signed_eq [OF kh(1)])
    show "0 < of_nat M * (2::rat) powi p" using M0 by simp
    show "0 < of_nat k * (2::rat) powi h" using kh(2) by simp
  qed
  then have E: "of_nat M * (2::rat) powi (p - h) = of_nat k" by (rule powi_move)
  have k0: "2 ^ 0 \<le> k" using kh(2) by simp
  from scale_lower [OF E M24 k0] have lo: "- 24 < p - h" by simp
  show ?thesis
  proof (cases "e = 0")
    case True
    then have "M < 2 ^ 23" using m by (simp add: M_def)
    from scale_lower [OF E this k0] have "- 23 < p - h" by simp
    moreover have "- 24 \<le> h" using kh(4) by auto
    ultimately show ?thesis using True by (simp add: p_def)
  next
    case e0: False
    then have Mm: "M = 2 ^ 23 + m" and pe: "p = int e - 150" by (simp_all add: M_def p_def)
    have M23: "2 ^ 23 \<le> M" by (simp add: Mm)
    from kh(4) show ?thesis
    proof
      assume sub: "H = 0 \<and> k = K \<and> h = - 24"
      then have "k < 2 ^ 10" using K by simp
      from scale_upper [OF E M23 this] have up: "p - h < - 13" by simp
      have r: "103 \<le> e" "e \<le> 112" using lo up sub by (simp_all add: pe)
      have "p - h = - int (126 - e)" using r sub by (simp add: pe)
      then have "of_nat M * (2::rat) powi (- int (126 - e)) = of_nat k" using E by (simp only:)
      then have "M = k * 2 ^ (126 - e)" by (rule scale_exact)
      then have "M mod 2 ^ (126 - e) = 0" by (simp only: mod_mult_self2_is_0)
      then have "(2 ^ 23 + m) mod 2 ^ (126 - e) = 0" unfolding Mm .
      with r show ?thesis by (simp only: simp_thms)
    next
      assume nrm: "0 < H \<and> H < 31 \<and> k = 1024 + K \<and> h = int H - 25"
      then have k10: "2 ^ 10 \<le> k" by simp
      from scale_lower [OF E M24 k10] have lo': "- 14 < p - h" by simp
      from scale_upper [OF E M23 kh(3)] have up: "p - h < - 12" by simp
      have d: "p - h = - int 13" using lo' up by simp
      have "of_nat M * (2::rat) powi (- int 13) = of_nat k" using E by (simp only: d)
      then have "M = k * 2 ^ 13" by (rule scale_exact)
      then have "2 ^ 23 + m = (1024 + K) * 2 ^ 13" using nrm by (simp only: Mm)
      also have "\<dots> = 2 ^ 23 + K * 2 ^ 13" by simp
      finally have "m = K * 2 ^ 13" by (simp only: add_left_cancel)
      then have "m mod 2 ^ 13 = 0" by (simp only: mod_mult_self2_is_0)
      moreover have "113 \<le> e" "e \<le> 142" using d nrm by (simp_all add: pe)
      ultimately show ?thesis by (simp only: simp_thms)
    qed
  qed
qed

lemma f32_word_eq:
  assumes "unat (w :: 32 word) = n"
  shows "w = of_nat n"
  unfolding assms [symmetric] by simp

lemma nonfinite_fields:
  assumes "f32_exp x = 255"
  shows "unat (floatToHalf x) =
           f32_sign x * 32768 + (31 * 1024 + (if f32_frac x \<noteq> 0 then 512 else 0))"
  unfolding floatToHalf_unat floatToHalf_fields_def using assms by simp

lemma nonfinite_round_trip:
  assumes "f32_exp x = 255"
  shows "halfToFloat (floatToHalf x) = float32_value x"
proof -
  have "halfToFloat (floatToHalf x)
      = binary16_value (f32_sign x) 31 (if f32_frac x \<noteq> 0 then 512 else 0)"
    using nonfinite_fields [OF assms] f32_field_bounds(1) [of x]
    by (rule halfToFloat_of_fields) simp_all
  also have "\<dots> = binary32_value (f32_sign x) (f32_exp x) (f32_frac x)"
    using assms by (simp add: binary16_value_def binary32_value_def)
  finally show ?thesis by (simp only: float32_value_fields)
qed

lemma representable_round_trip:
  assumes "halfToFloat h = float32_value x"
  shows "halfToFloat (floatToHalf x) = float32_value x"
proof (cases "f32_exp x = 255")
  case True
  then show ?thesis by (rule nonfinite_round_trip)
next
  case False
  have "binary16_value (unat h div 2 ^ 15 mod 2) (unat h div 2 ^ 10 mod 32) (unat h mod 2 ^ 10)
      = binary32_value (f32_sign x) (f32_exp x) (f32_frac x)"
    using assms by (simp only: halfToFloat_fields float32_value_fields)
  then have "half_exact x"
    unfolding half_exact_def Let_def
    using _ _ False f32_field_bounds(2,3) [of x]
    by (rule representable_fields) simp_all
  then show ?thesis by (rule half_exact_round_trip)
qed

lemma float32_value_nonfinite:
  "float32_value x = PosInfinity \<longleftrightarrow> f32_exp x = 255 \<and> f32_frac x = 0 \<and> f32_sign x = 0"
  "float32_value x = NegInfinity \<longleftrightarrow> f32_exp x = 255 \<and> f32_frac x = 0 \<and> f32_sign x \<noteq> 0"
  "float32_value x = NaN \<longleftrightarrow> f32_exp x = 255 \<and> f32_frac x \<noteq> 0"
  unfolding float32_value_fields binary32_value_def by simp_all

lemma floatToHalf_infinity:
  assumes "f32_exp x = 255" and "f32_frac x = 0"
  shows "floatToHalf x = (if f32_sign x \<noteq> 0 then 0xfc00 else 0x7c00)"
proof -
  have s: "f32_sign x = 0 \<or> f32_sign x = 1" using f32_field_bounds(1) [of x] by arith
  have "unat (floatToHalf x) = f32_sign x * 32768 + 31744"
    using nonfinite_fields [OF assms(1)] assms(2) by simp
  then have "floatToHalf x = of_nat (f32_sign x * 32768 + 31744)"
    using s by (intro f32_word_eq) auto
  then show ?thesis using s by auto
qed

lemma floatToHalf_nan:
  assumes "f32_exp x = 255" and "f32_frac x \<noteq> 0"
  shows "floatToHalf x = (if f32_sign x \<noteq> 0 then 0xfe00 else 0x7e00)"
proof -
  have s: "f32_sign x = 0 \<or> f32_sign x = 1" using f32_field_bounds(1) [of x] by arith
  have "unat (floatToHalf x) = f32_sign x * 32768 + 32256"
    using nonfinite_fields [OF assms(1)] assms(2) by simp
  then have "floatToHalf x = of_nat (f32_sign x * 32768 + 32256)"
    using s by (intro f32_word_eq) auto
  then show ?thesis using s by auto
qed

lemma powi_ratio: "of_nat M * (2::rat) powi (p - int n) / 2 powi p = of_nat M / 2 ^ n"
proof -
  have "(2::rat) powi (p - int n) = 2 powi p * 2 powi (- int n)"
    by (simp only: powi2_cancel) simp
  also have "(2::rat) powi (- int n) = 1 / 2 ^ n"
    by (simp only: power_int_minus_divide power_int_of_nat)
  finally show ?thesis by simp
qed

lemma normal_mantissa:
  assumes "m < 2 ^ 23"
  shows "(2 ^ 23 + m) div 2 ^ 13 + (2 ^ 23 + m) div 2 ^ 12 mod 2
           = 1024 + (m div 2 ^ 13 + m div 2 ^ 12 mod 2)"
    and "m div 2 ^ 13 + m div 2 ^ 12 mod 2 \<le> (1024::nat)"
proof -
  have a: "(2 ^ 23 + m) div 2 ^ 13 = 1024 + m div 2 ^ 13"
  proof -
    have "(2::nat) ^ 23 + m = 1024 * 2 ^ 13 + m" by simp
    moreover have "(1024 * 2 ^ 13 + m) div 2 ^ 13 = 1024 + m div 2 ^ 13"
      by (rule div_mult_self3) simp
    ultimately show ?thesis by (simp only:)
  qed
  have b: "(2 ^ 23 + m) div 2 ^ 12 = 2048 + m div 2 ^ 12"
  proof -
    have "(2::nat) ^ 23 + m = 2048 * 2 ^ 12 + m" by simp
    moreover have "(2048 * 2 ^ 12 + m) div 2 ^ 12 = 2048 + m div 2 ^ 12"
      by (rule div_mult_self3) simp
    ultimately show ?thesis by (simp only:)
  qed
  show "(2 ^ 23 + m) div 2 ^ 13 + (2 ^ 23 + m) div 2 ^ 12 mod 2
           = 1024 + (m div 2 ^ 13 + m div 2 ^ 12 mod 2)"
  proof -
    have "(2048 + m div 2 ^ 12) mod 2 = (1024 * 2 + m div 2 ^ 12) mod 2" by simp
    also have "\<dots> = m div 2 ^ 12 mod 2" by (rule mod_mult_self3)
    finally show ?thesis unfolding a b by simp
  qed
  have "m div 2 ^ 13 < 1024" using assms by simp
  moreover have "m div 2 ^ 12 mod 2 \<le> 1" by simp
  ultimately show "m div 2 ^ 13 + m div 2 ^ 12 mod 2 \<le> (1024::nat)" by linarith
qed

lemma normal_rounding:
  fixes h :: "32 word"
  assumes e: "113 \<le> e" "e \<le> 142" and m: "m < 2 ^ 23" and s: "s < 2"
    and U: "unat h = floatToHalf_fields s e m"
    and nc: "\<not> (m div 2 ^ 13 + m div 2 ^ 12 mod 2 = 1024 \<and> odd (e - 112))"
  defines "r \<equiv> of_int \<lfloor>of_nat (2 ^ 23 + m) * (2::rat) powi (int e - 150) / 2 powi (int e - 137)
                          + 1 / 2\<rfloor> * 2 powi (int e - 137)"
  shows "halfToFloat h =
           (if 65536 \<le> r then (if s \<noteq> 0 then NegInfinity else PosInfinity)
            else Num (signed s r))"
proof -
  define k where "k = m div 2 ^ 13 + m div 2 ^ 12 mod 2"
  define he where "he = e - 112"
  have k: "k \<le> 1024" unfolding k_def using m by (rule normal_mantissa(2))
  have he: "1 \<le> he" "he \<le> 30" "int he = int e - 112" using e by (simp_all add: he_def)
  have "of_nat (2 ^ 23 + m) * (2::rat) powi (int e - 150) / 2 powi (int e - 137)
      = of_nat (2 ^ 23 + m) / 2 ^ 13"
    using powi_ratio [of "2 ^ 23 + m" "int e - 137" 13] by simp
  then have "r = of_int \<lfloor>of_nat (2 ^ 23 + m) / 2 ^ 13 + 1 / 2 :: rat\<rfloor> * 2 powi (int e - 137)"
    unfolding r_def by (simp only:)
  also have "\<lfloor>of_nat (2 ^ 23 + m) / 2 ^ 13 + 1 / 2 :: rat\<rfloor> = int (1024 + k)"
    unfolding k_def normal_mantissa(1) [OF m, symmetric]
    using round_shift [of 13 "2 ^ 23 + m"] by simp
  finally have r: "r = of_nat (1024 + k) * 2 powi (int e - 137)" by simp
  have F: "unat h = s * 32768 + (if k < 1024 then he * 1024 + k
                                 else if even he then (he + 1) * 1024 else he * 1024)"
    unfolding U floatToHalf_fields_def Let_def k_def he_def using e by simp
  show ?thesis
  proof (cases "k < 1024")
    case True
    have "unat h = s * 32768 + (he * 1024 + k)" using F True by simp
    then have "halfToFloat h = binary16_value s he k"
      using s _ True by (rule halfToFloat_of_fields) (use he in simp)
    also have "\<dots> = Num (signed s (of_nat (1024 + k) * 2 powi (int he - 25)))"
      using he by (simp add: binary16_value_def)
    also have "int he - 25 = int e - 137" using he by simp
    finally have v: "halfToFloat h = Num (signed s r)" unfolding r .
    have "(2::rat) powi (int e - 137) \<le> 2 powi 5"
      using e by (intro power_int_increasing) simp_all
    moreover have "(of_nat (1024 + k) :: rat) < 2048" using True by simp
    ultimately have "r < 2048 * 2 powi 5"
      unfolding r by (intro mult_less_le_imp_less) simp_all
    then have "\<not> 65536 \<le> r" by simp
    with v show ?thesis by simp
  next
    case False
    with k have k1: "k = 1024" by simp
    with nc have ev: "even he" by (simp add: k_def he_def)
    have u: "unat h = s * 32768 + ((he + 1) * 1024 + 0)" using F False ev by simp
    have r2: "r = 1024 * 2 powi (int e - 136)"
    proof -
      have "(2::rat) powi (int e - 136) = 2 powi (int e - 137) * 2 powi 1"
        by (simp only: powi2_cancel) simp
      then show ?thesis unfolding r k1 by simp
    qed
    from u s have v: "halfToFloat h = binary16_value s (he + 1) 0"
      by (rule halfToFloat_of_fields) (use he in simp_all)
    show ?thesis
    proof (cases "he = 30")
      case True
      then have "e = 142" using he(3) by simp
      then have "r = 65536" unfolding r2 by simp
      then show ?thesis unfolding v using True by (simp add: binary16_value_def)
    next
      case ne: False
      with ev he have h28: "he \<le> 28" by (cases "he = 29") simp_all
      have "halfToFloat h = Num (signed s (of_nat (1024 + 0) * 2 powi (int (he + 1) - 25)))"
        unfolding v using h28 by (simp add: binary16_value_def)
      also have "int (he + 1) - 25 = int e - 136" using he by simp
      finally have v2: "halfToFloat h = Num (signed s r)" unfolding r2 by simp
      have "(2::rat) powi (int e - 136) \<le> 2 powi 4"
        using h28 he(3) by (intro power_int_increasing) simp_all
      then have "\<not> 65536 \<le> r" unfolding r2 by simp
      with v2 show ?thesis by simp
    qed
  qed
qed

lemma subnormal_rounding:
  fixes h :: "32 word"
  assumes e: "103 \<le> e" "e \<le> 112" and m: "m < 2 ^ 23" and s: "s < 2"
    and U: "unat h = floatToHalf_fields s e m"
  defines "r \<equiv> of_int \<lfloor>of_nat (2 ^ 23 + m) * (2::rat) powi (int e - 150) / 2 powi (- 24)
                          + 1 / 2\<rfloor> * 2 powi (- 24)"
  shows "halfToFloat h = Num (signed s r)" and "r < 65536"
proof -
  define n where "n = 126 - e"
  define M where "M = 2 ^ 23 + m"
  define k where "k = M div 2 ^ n + M div 2 ^ (n - 1) mod 2"
  have n: "14 \<le> n" "n \<le> 23" "0 < n" "int e - 150 = - 24 - int n" "125 - e = n - 1"
    using e by (simp_all add: n_def)
  have M: "2 ^ 23 \<le> M" "M < 2 ^ 24" using m by (simp_all add: M_def)
  have "(2::nat) ^ n \<le> 2 ^ 23" using n(2) by (intro power_increasing) simp_all
  then have "2 ^ n \<le> M" using M(1) by simp
  then have q0: "0 < M div 2 ^ n" by (simp add: div_greater_zero_iff)
  have "(2::nat) ^ 24 = 1024 * 2 ^ 14" by simp
  also have "\<dots> \<le> 1024 * 2 ^ n" using n(1) by (intro mult_left_mono power_increasing) simp_all
  finally have "M < 1024 * 2 ^ n" using M(2) by simp
  then have q1: "M div 2 ^ n < 1024" by (simp add: less_mult_imp_div_less)
  have k: "0 < k" "k \<le> 1024" using q0 q1 by (simp_all add: k_def)
  have "of_nat M * (2::rat) powi (int e - 150) / 2 powi (- 24) = of_nat M / 2 ^ n"
    unfolding n(4) by (rule powi_ratio)
  then have "r = of_int \<lfloor>of_nat M / 2 ^ n + 1 / 2 :: rat\<rfloor> * 2 powi (- 24)"
    unfolding r_def M_def by (simp only:)
  also have "\<lfloor>of_nat M / 2 ^ n + 1 / 2 :: rat\<rfloor> = int k"
    unfolding k_def by (rule round_shift [OF n(3)])
  finally have r: "r = of_nat k * 2 powi (- 24)" by simp
  have "r \<le> 1024 * 2 powi (- 24)" unfolding r using k(2) by (intro mult_right_mono) simp_all
  then show "r < 65536" by simp
  have F: "unat h = s * 32768 + k"
    unfolding U floatToHalf_fields_def k_def M_def n(5) [symmetric] n_def using e by simp
  show "halfToFloat h = Num (signed s r)"
  proof (cases "k < 1024")
    case True
    have "unat h = s * 32768 + (0 * 1024 + k)" using F by simp
    then have "halfToFloat h = binary16_value s 0 k"
      using s _ True by (rule halfToFloat_of_fields) simp
    then show ?thesis unfolding r using k(1) by (simp add: binary16_value_def)
  next
    case False
    with k have k1: "k = 1024" by simp
    have "unat h = s * 32768 + (1 * 1024 + 0)" using F k1 by simp
    then have "halfToFloat h = binary16_value s 1 0"
      using s by (rule halfToFloat_of_fields) simp_all
    then show ?thesis unfolding r k1 by (simp add: binary16_value_def)
  qed
qed

lemma floatToHalf_fields_sign:
  assumes "s < 2" and "e < 256" and "m < 2 ^ 23"
  shows "floatToHalf_fields s e m div 2 ^ 15 = s"
proof -
  have "\<exists>t < 32768. floatToHalf_fields s e m = s * 32768 + t"
  proof (cases "e = 255 \<or> e < 103 \<or> 142 < e")
    case True
    then show ?thesis by (auto simp: floatToHalf_fields_def)
  next
    case False
    show ?thesis
    proof (cases "e < 113")
      case True
      define n where "n = 126 - e"
      have n: "14 \<le> n" "125 - e = n - 1" using True False by (simp_all add: n_def)
      have "(2::nat) ^ 24 = 1024 * 2 ^ 14" by simp
      also have "\<dots> \<le> 1024 * 2 ^ n" using n(1) by (intro mult_left_mono power_increasing) simp_all
      finally have "2 ^ 23 + m < 1024 * 2 ^ n" using assms(3) by simp
      then have "(2 ^ 23 + m) div 2 ^ n < 1024" by (simp add: less_mult_imp_div_less)
      then have "(2 ^ 23 + m) div 2 ^ n + (2 ^ 23 + m) div 2 ^ (n - 1) mod 2 < 32768" by simp
      moreover have "floatToHalf_fields s e m
          = s * 32768 + ((2 ^ 23 + m) div 2 ^ n + (2 ^ 23 + m) div 2 ^ (n - 1) mod 2)"
        unfolding floatToHalf_fields_def n(2) [symmetric] n_def using True False by simp
      ultimately show ?thesis by blast
    next
      case e113: False
      define k where "k = m div 2 ^ 13 + m div 2 ^ 12 mod 2"
      define he where "he = e - 112"
      have he: "he \<le> 30" unfolding he_def using False by arith
      have k: "k \<le> 1024" unfolding k_def using assms(3) by (rule normal_mantissa(2))
      define t where "t = (if k < 1024 then he * 1024 + k
                           else if even he then (he + 1) * 1024 else he * 1024)"
      have "t < 32768" using he k by (simp add: t_def)
      moreover have "floatToHalf_fields s e m = s * 32768 + t"
        unfolding floatToHalf_fields_def Let_def t_def k_def he_def using False e113 by simp
      ultimately show ?thesis by blast
    qed
  qed
  then obtain t where t: "t < 32768" "floatToHalf_fields s e m = s * 32768 + t" by blast
  have "(s * 32768 + t) div 32768 = s" using t(1) by simp
  then show ?thesis unfolding t(2) by simp
qed

lemma half_exact_iff_binary16:
  "half_exact x \<longleftrightarrow>
     f32_exp x \<noteq> 255 \<and>
     (\<exists>S H K. S < 2 \<and> H < 31 \<and> K < 1024 \<and> binary16_value S H K = float32_value x)"
proof
  assume he: "half_exact x"
  then have e: "f32_exp x \<noteq> 255" by (auto simp: half_exact_def Let_def)
  define h where "h = floatToHalf x"
  define S where "S = unat h div 2 ^ 15 mod 2"
  define H where "H = unat h div 2 ^ 10 mod 32"
  define K where "K = unat h mod 2 ^ 10"
  have v: "binary16_value S H K = float32_value x"
    using half_exact_round_trip [OF he] unfolding h_def [symmetric] halfToFloat_fields S_def H_def K_def .
  have b: "S < 2" "H < 32" "K < 1024" by (simp_all add: S_def H_def K_def)
  have "H \<noteq> 31"
  proof
    assume "H = 31"
    then have "binary16_value S H K \<in> {PosInfinity, NegInfinity, NaN}"
      by (simp add: binary16_value_def)
    then show False
      unfolding v float32_value_fields binary32_value_def using e
      by (auto split: if_splits)
  qed
  with b have "H < 31" by simp
  with b v e show "f32_exp x \<noteq> 255 \<and>
     (\<exists>S H K. S < 2 \<and> H < 31 \<and> K < 1024 \<and> binary16_value S H K = float32_value x)"
    by blast
next
  assume "f32_exp x \<noteq> 255 \<and>
     (\<exists>S H K. S < 2 \<and> H < 31 \<and> K < 1024 \<and> binary16_value S H K = float32_value x)"
  then obtain S H K where e: "f32_exp x \<noteq> 255" and H31: "H < 31" and K: "K < 1024"
    and v: "binary16_value S H K = binary32_value (f32_sign x) (f32_exp x) (f32_frac x)"
    unfolding float32_value_fields by blast
  from H31 have H: "H < 32" by simp
  show "half_exact x"
    unfolding half_exact_def Let_def
    using v H K e f32_field_bounds(2,3) [of x] by (rule representable_fields)
qed

section \<open>Lemmas about the rows of the HDR decoder\<close>

lemma scanline_index_mapping:
  assumes "0 < decodeWidth" and "decodeWidth < 2 ^ 25" and "0 < width" and "width < 2 ^ 25"
    and "0 \<le> x" and "x < decodeWidth"
    and "t = (of_int x * of_int width / of_int decodeWidth :: rat)"
  shows "\<exists>srcX. 0 \<le> srcX \<and> srcX \<le> width - 1 \<and>
           (srcX = \<lfloor>t\<rfloor> \<or>
            (of_int \<lfloor>t\<rfloor> = t \<and> \<not> decodeWidth dvd width \<and> srcX = \<lfloor>t\<rfloor> - 1)) \<and>
           scanline_index width decodeWidth xSign x =
             (if xSign = MinusX then width - 1 - srcX else srcX)"
proof -
  define p where "p = js_mul (of_int x) (js_div (of_int width) (of_int decodeWidth))"
  have ft: "\<lfloor>t\<rfloor> = (x * width) div decodeWidth"
    unfolding assms(7) by (simp add: floor_divide_of_int_eq flip: of_int_mult)
  have "x * width < decodeWidth * width" using assms(3,6) by simp
  moreover have "decodeWidth * ((x * width) div decodeWidth) \<le> x * width"
  proof -
    have "decodeWidth * ((x * width) div decodeWidth) + (x * width) mod decodeWidth = x * width"
      by (rule mult_div_mod_eq)
    moreover have "0 \<le> (x * width) mod decodeWidth" using assms(1) by simp
    ultimately show ?thesis by linarith
  qed
  ultimately have "decodeWidth * ((x * width) div decodeWidth) < decodeWidth * width" by linarith
  then have "(x * width) div decodeWidth < width"
    using assms(1) by (simp only: mult_less_cancel_left_pos)
  then have up: "(x * width) div decodeWidth \<le> width - 1" by simp
  have near: "\<lfloor>p\<rfloor> = (x * width) div decodeWidth \<or>
        (decodeWidth dvd x * width \<and> \<lfloor>p\<rfloor> = (x * width) div decodeWidth - 1)"
    and nonneg: "0 \<le> \<lfloor>p\<rfloor>"
    unfolding p_def using assms(1,2,3,4,5,6) by (rule srcX_near)+
  have w53: "width < 2 ^ 53" using assms(4) by simp
  have exact: "\<lfloor>p\<rfloor> = (x * width) div decodeWidth" if "decodeWidth dvd width"
    unfolding p_def srcX_exact [OF assms(1,3) w53 assms(5,6) that] by simp
  have int_t: "of_int \<lfloor>t\<rfloor> = t" if "decodeWidth dvd x * width"
  proof -
    from that obtain k where k: "x * width = decodeWidth * k" by (auto simp: dvd_def)
    have "t = of_int (x * width) / of_int decodeWidth" by (simp add: assms(7))
    also have "\<dots> = of_int k" using assms(1) by (simp add: k)
    finally show ?thesis by simp
  qed
  have col: "scanline_index width decodeWidth xSign x =
      (if xSign = MinusX then width - 1 - min (width - 1) \<lfloor>p\<rfloor> else min (width - 1) \<lfloor>p\<rfloor>)"
    by (cases xSign) (simp_all add: scanline_index_def Let_def p_def Math_floor_def)
  have le: "\<lfloor>p\<rfloor> \<le> width - 1" using near up by auto
  then have m: "min (width - 1) \<lfloor>p\<rfloor> = \<lfloor>p\<rfloor>" by simp
  have "0 \<le> \<lfloor>p\<rfloor> \<and> \<lfloor>p\<rfloor> \<le> width - 1 \<and>
           (\<lfloor>p\<rfloor> = \<lfloor>t\<rfloor> \<or>
            (of_int \<lfloor>t\<rfloor> = t \<and> \<not> decodeWidth dvd width \<and> \<lfloor>p\<rfloor> = \<lfloor>t\<rfloor> - 1)) \<and>
           scanline_index width decodeWidth xSign x =
             (if xSign = MinusX then width - 1 - \<lfloor>p\<rfloor> else \<lfloor>p\<rfloor>)"
    using nonneg le near exact int_t col unfolding m ft by auto
  then show ?thesis by blast
qed

lemma fill_length [simp]: "length (fill out v a b) = length out"
  by (auto simp: fill_def Let_def min_def max_def)

lemma fill_take:
  assumes "length out2 = length out" and "take x out2 = take x out"
  shows "take (x + run) (fill out2 v x (x + run)) = take (x + run) (fill out v x (x + run))"
proof (cases "x \<le> length out")
  case True
  then show ?thesis using assms by (simp add: fill_def Let_def min_def max_def)
next
  case False
  then have "take x out = out" "take x out2 = out2" using assms(1) by simp_all
  with assms(2) have "out2 = out" by simp
  then show ?thesis by simp
qed

lemma set_at_indep:
  assumes "length out2 = length out" and "take x out2 = take x out"
  shows "case set_at out src x of
           Inl e \<Rightarrow> set_at out2 src x = Inl e
         | Inr out' \<Rightarrow> (\<exists>out2'. set_at out2 src x = Inr out2' \<and> length out' = length out \<and>
               length out2' = length out \<and>
               take (x + length src) out2' = take (x + length src) out')"
  using assms by (auto simp: set_at_def)

lemma rle_iter_indep:
  assumes "length out2 = length out" and "take x out2 = take x out"
  shows "case rle_iter bytes x off out of
           Inl e \<Rightarrow> rle_iter bytes x off out2 = Inl e
         | Inr (x', off', out') \<Rightarrow>
             (\<exists>out2'. rle_iter bytes x off out2 = Inr (x', off', out2') \<and>
                length out' = length out \<and> length out2' = length out \<and>
                take x' out2' = take x' out')"
proof -
  define count where "count = unat (bytes ! off)"
  consider (eof) "off \<ge> length bytes"
    | (rep_eof) "off < length bytes" "count > 128" "off + 1 \<ge> length bytes"
    | (rep) "off < length bytes" "count > 128" "off + 1 < length bytes"
    | (lit_eof) "off < length bytes" "count \<le> 128" "count > 0" "off + 1 + count > length bytes"
    | (lit) "off < length bytes" "count \<le> 128" "count > 0" "off + 1 + count \<le> length bytes"
    | (zero) "off < length bytes" "count = 0"
    by linarith
  then show ?thesis
  proof cases
    case eof
    then show ?thesis by (simp add: rle_iter_def)
  next
    case rep_eof
    then show ?thesis by (simp add: rle_iter_def Let_def count_def)
  next
    case rep
    have e: "rle_iter bytes x off o' =
        Inr (x + (count - 128), off + 1 + 1, fill o' (bytes ! (off + 1)) x (x + (count - 128)))" for o'
      using rep by (simp add: rle_iter_def Let_def count_def)
    show ?thesis
      unfolding e using fill_take [OF assms, of "count - 128"] assms(1) by simp
  next
    case lit_eof
    then show ?thesis by (simp add: rle_iter_def Let_def count_def)
  next
    case lit
    define src where "src = slice bytes (off + 1) (off + 1 + count)"
    have ls: "length src = count" using lit by (simp add: src_def slice_def)
    have e: "rle_iter bytes x off o' =
        (case set_at o' src x of Inl e \<Rightarrow> Inl e | Inr out' \<Rightarrow> Inr (x + count, off + 1 + count, out'))"
      for o'
      using lit by (simp add: rle_iter_def Let_def count_def src_def split: sum.splits)
    show ?thesis
      unfolding e using set_at_indep [OF assms, of src] by (auto simp: ls split: sum.splits)
  next
    case zero
    then show ?thesis using assms by (simp add: rle_iter_def Let_def count_def)
  qed
qed

lemma rle_loop_indep:
  assumes "rle_loop bytes width x off out = Some (Inr (off', out'))"
    and "length out2 = length out" and "take x out2 = take x out"
  shows "\<exists>out2'. rle_loop bytes width x off out2 = Some (Inr (off', out2')) \<and>
           length out' = length out \<and> length out2' = length out \<and>
           (\<exists>x'. width \<le> x' \<and> take x' out2' = take x' out')"
  using assms
proof (induction "length bytes - off" arbitrary: x off out out2 rule: less_induct)
  case less
  show ?case
  proof (cases "x < width")
    case False
    with less.prems show ?thesis
      by (auto simp: rle_loop_unfold_done intro!: exI [of _ x])
  next
    case True
    show ?thesis
    proof (cases "rle_iter bytes x off out")
      case (Inl e)
      with True less.prems show ?thesis by (simp add: rle_loop_unfold_err)
    next
      case (Inr st)
      obtain x1 off1 out1 where st: "st = (x1, off1, out1)" by (cases st)
      from Inr st have adv: "off < off1" "off1 \<le> length bytes"
        using rle_iter_advances by blast+
      then have m: "length bytes - off1 < length bytes - off" by arith
      from rle_iter_indep [OF less.prems(2,3), of bytes off] Inr st
      obtain out21 where i2: "rle_iter bytes x off out2 = Inr (x1, off1, out21)"
        and l1: "length out1 = length out" and l2: "length out21 = length out"
        and t: "take x1 out21 = take x1 out1"
        by auto
      from True Inr st less.prems(1)
      have r1: "rle_loop bytes width x1 off1 out1 = Some (Inr (off', out'))"
        by (simp add: rle_loop_unfold_step)
      have l21: "length out21 = length out1" using l1 l2 by simp
      from less.hyps [OF m r1 l21 t]
      obtain out2' where "rle_loop bytes width x1 off1 out21 = Some (Inr (off', out2'))"
        "length out' = length out1" "length out2' = length out1"
        "\<exists>x'. width \<le> x' \<and> take x' out2' = take x' out'"
        by blast
      then show ?thesis using True i2 l1 by (simp add: rle_loop_unfold_step)
    qed
  qed
qed

lemma decodeRLEChannel_fresh:
  assumes "decodeRLEChannel bytes off width out = Some (Inr (off', out'))"
    and "length out = width"
  shows "rle_plane bytes off width = Some (off', out')" and "length out' = width"
proof -
  have l: "length (replicate width (0::byte)) = length out" using assms(2) by simp
  from rle_loop_indep [OF assms(1) [unfolded decodeRLEChannel_def] l]
  obtain p x' where p: "rle_loop bytes width 0 off (replicate width 0) = Some (Inr (off', p))"
    and lens: "length out' = length out" "length p = length out"
    and x': "width \<le> x'" "take x' p = take x' out'"
    by auto
  from lens x' assms(2) have "p = out'" by simp
  with p show "rle_plane bytes off width = Some (off', out')"
    by (simp add: rle_plane_def decodeRLEChannel_def)
  show "length out' = width" using lens assms(2) by simp
qed

lemma decodeScanline_rle_planes:
  assumes rle: "is_rle_row bytes offset width"
    and len: "length scanline = width * 4"
    and dec: "decodeScanline bytes offset width scanline = Some (Inr (off', scanline'))"
  shows "\<exists>r g b e. rle_row_planes bytes offset width = Some (r, g, b, e) \<and>
           scanline' = r @ g @ b @ e \<and>
           length r = width \<and> length g = width \<and> length b = width \<and> length e = width"
proof -
  have m: "push_bit 8 (unat (bytes ! (offset + 2))) OR unat (bytes ! (offset + 3)) = width"
  proof -
    have "unat (bytes ! (offset + 3)) < 2 ^ 8" using unsigned_less [of "bytes ! (offset + 3)"] by simp
    then have "push_bit 8 (unat (bytes ! (offset + 2))) OR unat (bytes ! (offset + 3))
        = unat (bytes ! (offset + 2)) * 2 ^ 8 + unat (bytes ! (offset + 3))"
      by (rule or_push_bit_nat)
    then show ?thesis using rle by (simp add: is_rle_row_def)
  qed
  have run: "and_then (decodeRLEChannel bytes (offset + 4) width (slice scanline 0 width)) (\<lambda>(off, r').
                and_then (decodeRLEChannel bytes off width (slice scanline width (width * 2))) (\<lambda>(off, g').
                and_then (decodeRLEChannel bytes off width (slice scanline (width * 2) (width * 3))) (\<lambda>(off, b').
                and_then (decodeRLEChannel bytes off width (slice scanline (width * 3) (width * 4))) (\<lambda>(off, e').
                  Some (Inr (off, r' @ g' @ b' @ e')))))) = Some (Inr (off', scanline'))"
    using dec rle m unfolding decodeScanline_def Let_def is_rle_row_def by simp
  have ls: "length (slice scanline 0 width) = width"
    "length (slice scanline width (width * 2)) = width"
    "length (slice scanline (width * 2) (width * 3)) = width"
    "length (slice scanline (width * 3) (width * 4)) = width"
    using len by (simp_all add: slice_def)
  from and_then_Inr [OF run] obtain o1 r' where
    r: "decodeRLEChannel bytes (offset + 4) width (slice scanline 0 width) = Some (Inr (o1, r'))" and
    run1: "and_then (decodeRLEChannel bytes o1 width (slice scanline width (width * 2))) (\<lambda>(off, g').
                and_then (decodeRLEChannel bytes off width (slice scanline (width * 2) (width * 3))) (\<lambda>(off, b').
                and_then (decodeRLEChannel bytes off width (slice scanline (width * 3) (width * 4))) (\<lambda>(off, e').
                  Some (Inr (off, r' @ g' @ b' @ e'))))) = Some (Inr (off', scanline'))"
    by auto
  from and_then_Inr [OF run1] obtain o2 g' where
    g: "decodeRLEChannel bytes o1 width (slice scanline width (width * 2)) = Some (Inr (o2, g'))" and
    run2: "and_then (decodeRLEChannel bytes o2 width (slice scanline (width * 2) (width * 3))) (\<lambda>(off, b').
                and_then (decodeRLEChannel bytes off width (slice scanline (width * 3) (width * 4))) (\<lambda>(off, e').
                  Some (Inr (off, r' @ g' @ b' @ e')))) = Some (Inr (off', scanline'))"
    by auto
  from and_then_Inr [OF run2] obtain o3 b' where
    b: "decodeRLEChannel bytes o2 width (slice scanline (width * 2) (width * 3)) = Some (Inr (o3, b'))" and
    run3: "and_then (decodeRLEChannel bytes o3 width (slice scanline (width * 3) (width * 4))) (\<lambda>(off, e').
                  Some (Inr (off, r' @ g' @ b' @ e'))) = Some (Inr (off', scanline'))"
    by auto
  from and_then_Inr [OF run3] obtain e' where
    e: "decodeRLEChannel bytes o3 width (slice scanline (width * 3) (width * 4)) = Some (Inr (off', e'))"
    and sl: "scanline' = r' @ g' @ b' @ e'"
    by auto
  note R = decodeRLEChannel_fresh [OF r ls(1)]
  note G = decodeRLEChannel_fresh [OF g ls(2)]
  note B = decodeRLEChannel_fresh [OF b ls(3)]
  note E = decodeRLEChannel_fresh [OF e ls(4)]
  have "rle_row_planes bytes offset width = Some (r', g', b', e')"
    by (simp add: rle_row_planes_def R(1) G(1) B(1) E(1))
  with sl R(2) G(2) B(2) E(2) show ?thesis by blast
qed

lemma hdr_texel_planes:
  assumes "length r = nat width" "length g = nat width" "length b = nat width" "length e = nat width"
    and "0 \<le> scanline_index width decodeWidth xSign x"
    and "scanline_index width decodeWidth xSign x < width"
  shows "hdr_texel (r @ g @ b @ e) width decodeWidth xSign x
           = Some (source_pixel (r, g, b, e) (nat (scanline_index width decodeWidth xSign x)))"
proof -
  define idx where "idx = scanline_index width decodeWidth xSign x"
  define i where "i = nat idx"
  define w where "w = nat width"
  have i: "i < w" "idx = int i" "width = int w" using assms(5,6) by (simp_all add: i_def idx_def w_def)
  have l: "length r = w" "length g = w" "length b = w" "length e = w"
    using assms(1-4) by (simp_all add: w_def)
  have a0: "scanline_at (r @ g @ b @ e) idx = Some (r ! i)"
    using i l by (simp add: scanline_at_def nth_append)
  have a1: "scanline_at (r @ g @ b @ e) (idx + width) = Some (g ! i)"
  proof -
    have "nat (idx + width) = w + i" using i by simp
    then show ?thesis using i l by (simp add: scanline_at_def nth_append)
  qed
  have a2: "scanline_at (r @ g @ b @ e) (idx + width * 2) = Some (b ! i)"
  proof -
    have "nat (idx + width * 2) = w + (w + i)" using i by simp
    then show ?thesis using i l by (simp add: scanline_at_def nth_append)
  qed
  have a3: "scanline_at (r @ g @ b @ e) (idx + width * 3) = Some (e ! i)"
  proof -
    have "nat (idx + width * 3) = w + (w + (w + i))" using i by simp
    then show ?thesis using i l by (simp add: scanline_at_def nth_append)
  qed
  show ?thesis
    unfolding hdr_texel_def Let_def idx_def [symmetric] a0 a1 a2 a3 i_def [symmetric]
    by (simp add: source_pixel_def)
qed

section \<open>Lemmas about the EXR block loop\<close>





















section \<open>Claims about the HDR scanline decoder\<close>



text \<open>
  Claim C8, as stated, fails: the scanline decoder can also throw the runtime's RangeError.
  Here the RLE marker announces a width of 8 and the first literal run of the red plane has
  9 bytes, all of them inside the buffer; \<open>out.set\<close> refuses to write 9 bytes into the
  8-byte plane. No read goes past the end of the buffer, and the failure is not
  \<open>UnexpectedEof\<close>.
\<close>

theorem decodeScanline_only_eof_counterexample:
  "decodeScanline [2, 2, 0, 8, 9, 1, 2, 3, 4, 5, 6, 7, 8, 9] 0 8 (replicate 32 0)
     = Some (Inl RangeError) \<and>
   RangeError \<noteq> UnexpectedEof"
  by (simp add: decodeScanline_def decodeRLEChannel_def rle_loop.simps rle_iter_def
      slice_def set_at_def Let_def and_then_def)

text \<open>
  Claim C8, amended. With the scanline buffer of \<open>width * 4\<close> bytes that the caller
  allocates:
  \<^item> whenever the scanline decoder succeeds on a buffer and ends at offset \<open>off'\<close>, it fails
    with \<open>UnexpectedEof\<close> on every truncation of that buffer to fewer than \<open>off'\<close> bytes
    (some run or raw read would pass the end);
  \<^item> an iteration of the RLE loop throws \<open>UnexpectedEof\<close> exactly when the count byte, the
    value byte of a repeat run, or the bytes of a literal run lie past the end of the buffer,
    and the old-format read throws it exactly when its \<open>width * 4\<close> bytes pass the end, and
    throws nothing else;
  \<^item> the one other failure is the RangeError: an iteration throws it exactly when a literal
    run lies inside the buffer but is longer than the room left in the component plane, so
    it arises only on the RLE path.
\<close>

theorem decodeScanline_failures:
  assumes "length scanline = width * 4"
  shows
    "(\<forall>off' sl' n.
        decodeScanline bytes offset width scanline = Some (Inr (off', sl')) \<and> n < off' \<longrightarrow>
        decodeScanline (take n bytes) offset width scanline = Some (Inl UnexpectedEof)) \<and>
     (\<forall>x off pl.
        rle_iter bytes x off pl = Inl UnexpectedEof \<longleftrightarrow>
          length bytes \<le> off \<or>
          (128 < unat (bytes ! off) \<and> length bytes \<le> off + 1) \<or>
          (0 < unat (bytes ! off) \<and> unat (bytes ! off) \<le> 128 \<and>
           length bytes < off + 1 + unat (bytes ! off))) \<and>
     (\<forall>e. decodeOldPixels bytes offset width scanline = Inl e \<longleftrightarrow>
          e = UnexpectedEof \<and> length bytes < offset + width * 4) \<and>
     (\<forall>x off pl.
        rle_iter bytes x off pl = Inl RangeError \<longleftrightarrow>
          off < length bytes \<and> 0 < unat (bytes ! off) \<and> unat (bytes ! off) \<le> 128 \<and>
          off + 1 + unat (bytes ! off) \<le> length bytes \<and> length pl < x + unat (bytes ! off)) \<and>
     (decodeScanline bytes offset width scanline = Some (Inl RangeError) \<longrightarrow>
        8 \<le> width \<and> width \<le> 0x7fff \<and> offset + 4 \<le> length bytes \<and>
        bytes ! offset = 2 \<and> bytes ! (offset + 1) = 2)"
proof (intro conjI allI)
  fix off' sl' n
  show "decodeScanline bytes offset width scanline = Some (Inr (off', sl')) \<and> n < off' \<longrightarrow>
        decodeScanline (take n bytes) offset width scanline = Some (Inl UnexpectedEof)"
    using decodeScanline_take_eof by blast
next
  fix x off pl
  show "rle_iter bytes x off pl = Inl UnexpectedEof \<longleftrightarrow>
          length bytes \<le> off \<or>
          (128 < unat (bytes ! off) \<and> length bytes \<le> off + 1) \<or>
          (0 < unat (bytes ! off) \<and> unat (bytes ! off) \<le> 128 \<and>
           length bytes < off + 1 + unat (bytes ! off))"
    by (rule rle_iter_UnexpectedEof_iff)
next
  fix e
  show "decodeOldPixels bytes offset width scanline = Inl e \<longleftrightarrow>
          e = UnexpectedEof \<and> length bytes < offset + width * 4"
    using assms by (rule decodeOldPixels_error)
next
  fix x off pl
  show "rle_iter bytes x off pl = Inl RangeError \<longleftrightarrow>
          off < length bytes \<and> 0 < unat (bytes ! off) \<and> unat (bytes ! off) \<le> 128 \<and>
          off + 1 + unat (bytes ! off) \<le> length bytes \<and> length pl < x + unat (bytes ! off)"
    by (rule rle_iter_RangeError_iff)
next
  show "decodeScanline bytes offset width scanline = Some (Inl RangeError) \<longrightarrow>
        8 \<le> width \<and> width \<le> 0x7fff \<and> offset + 4 \<le> length bytes \<and>
        bytes ! offset = 2 \<and> bytes ! (offset + 1) = 2"
    using decodeScanline_RangeError [OF assms] by blast
qed

theorem decodeScanline_failures_witness:
  "length (replicate 32 (0::byte)) = 8 * 4 \<and>
   decodeScanline [2, 2, 0, 8, 136, 1, 136, 2, 136, 3, 136, 4] 0 8 (replicate 32 0)
     = Some (Inr (12, replicate 8 1 @ replicate 8 2 @ replicate 8 3 @ replicate 8 4)) \<and>
   (11::nat) < 12 \<and>
   decodeScanline (take 11 [2, 2, 0, 8, 136, 1, 136, 2, 136, 3, 136, 4]) 0 8 (replicate 32 0)
     = Some (Inl UnexpectedEof)"
proof -
  have len: "length (replicate 32 (0::byte)) = 8 * 4" by simp
  have run: "decodeScanline [2, 2, 0, 8, 136, 1, 136, 2, 136, 3, 136, 4] 0 8 (replicate 32 0)
     = Some (Inr (12, replicate 8 1 @ replicate 8 2 @ replicate 8 3 @ replicate 8 4))"
    by (simp add: decodeScanline_def decodeRLEChannel_def rle_loop.simps rle_iter_def
        slice_def fill_def Let_def and_then_def)
  have cut: "(11::nat) < 12" by simp
  from decodeScanline_failures [OF len, of "[2, 2, 0, 8, 136, 1, 136, 2, 136, 3, 136, 4]" 0]
    run cut
  have "decodeScanline (take 11 [2, 2, 0, 8, 136, 1, 136, 2, 136, 3, 136, 4]) 0 8
          (replicate 32 0) = Some (Inl UnexpectedEof)"
    by blast
  with len run cut show ?thesis by blast
qed

section \<open>Claims about the HDR metadata reader\<close>

text \<open>
  Claim C10, as stated, fails: a line that starts with \<open>FORMAT=\<close> and trims to the supported
  value is not enough. Every later line that starts with \<open>FORMAT=\<close> overwrites the flag, so
  a header with the supported directive followed by another one is rejected, although its
  first line is as the claim asks and its resolution line is valid.
\<close>

theorem readHDRMetadata_any_format_line_counterexample:
  "startsWith ''FORMAT=32-bit_rle_rgbe'' ''FORMAT='' \<and>
   trim ''FORMAT=32-bit_rle_rgbe'' = ''FORMAT=32-bit_rle_rgbe'' \<and>
   parseResolution ''-Y 4 +X 8'' \<noteq> None \<and>
   readHDRMetadata
     (''FORMAT=32-bit_rle_rgbe'' @ [newline] @ ''FORMAT=32-bit_rle_xyze'' @ [newline] @
      [newline] @ ''-Y 4 +X 8'' @ [newline]) = Inl UnsupportedFormat"
  by (simp add: readHDRMetadata_def header_loop.simps readLine_def newline_def slice_def
      TextDecoder_decode_def format_flag_def
      startsWith_def trim_def is_ws_def parseResolution_def split_ws.simps parseInt10_def
      is_digit_def digits_value_def Let_def)

text \<open>
  Claim C10, amended. \<open>readHDRMetadata\<close> does not look at the \<open>#?RADIANCE\<close> signature. It
  succeeds, with the width and height of the resolution line, on every buffer that consists
  of: non-blank lines (ASCII, each ended by a line feed) among which at least one starts with
  \<open>FORMAT=\<close> and the last one that does trims to exactly \<open>FORMAT=32-bit_rle_rgbe\<close>; then
  a blank line; then a line that \<open>parseResolution\<close> accepts, ended by a line feed or by the
  end of the buffer. Nothing is asked of the first line. The signature is what
  \<open>validatePanoramaBuffer\<close> tests: it answers "Invalid HDR signature" exactly when the
  decoded first 4096 bytes do not start with it.
\<close>

theorem readHDRMetadata_last_format_line:
  assumes "list_all (\<lambda>l. newline \<notin> set l \<and> trim l \<noteq> [] \<and> ascii l) ls"
    and "newline \<notin> set blank" and "trim blank = []" and "ascii blank"
    and "newline \<notin> set resline" and "ascii resline"
    and "parseResolution resline = Some res"
    and "tail = [] \<or> hd tail = newline"
    and "filter (\<lambda>l. startsWith l ''FORMAT='') ls \<noteq> []"
    and "trim (last (filter (\<lambda>l. startsWith l ''FORMAT='') ls)) = ''FORMAT=32-bit_rle_rgbe''"
    and "buffer = concat (map (\<lambda>l. l @ [newline]) ls) @ blank @ newline # resline @ tail"
  shows "readHDRMetadata buffer = Inr (res_width res, res_height res) \<and>
         (validatePanoramaBuffer Hdr buffer = Inl InvalidHdrSignature \<longleftrightarrow>
            \<not> startsWith (TextDecoder_decode (slice buffer 0 4096)) HDR_SIGNATURE)"
proof
  from assms(1) have lines: "\<forall>l \<in> set ls. newline \<notin> set l \<and> trim l \<noteq> [] \<and> ascii l"
    by (simp add: list_all_iff)
  have "header_loop ([] @ concat (map (\<lambda>l. l @ [newline]) ls) @ blank @ newline # resline @ tail)
          (length ([] :: string)) False =
        Inr (foldl format_flag False ls, Some res,
          length ([] :: string) + length (concat (map (\<lambda>l. l @ [newline]) ls)) + length blank + 1 +
          length resline + (if tail = [] then 0 else 1))"
    using header_loop_lines [OF lines assms(2,3,5,8,4,6), of "[]" False] assms(7) by simp
  moreover have "foldl format_flag False ls" using assms(9,10) by (simp add: foldl_format_flag)
  ultimately show "readHDRMetadata buffer = Inr (res_width res, res_height res)"
    using assms(11) by (simp add: readHDRMetadata_def)
next
  show "validatePanoramaBuffer Hdr buffer = Inl InvalidHdrSignature \<longleftrightarrow>
            \<not> startsWith (TextDecoder_decode (slice buffer 0 4096)) HDR_SIGNATURE"
    by (simp add: validatePanoramaBuffer_def Let_def)
qed

theorem readHDRMetadata_last_format_line_witness:
  "list_all (\<lambda>l. newline \<notin> set l \<and> trim l \<noteq> [] \<and> ascii l) [''FORMAT=32-bit_rle_rgbe''] \<and>
   newline \<notin> set [] \<and> trim [] = [] \<and> ascii [] \<and> newline \<notin> set ''-Y 4 +X 8'' \<and> ascii ''-Y 4 +X 8'' \<and>
   parseResolution ''-Y 4 +X 8'' =
     Some \<lparr>res_width = 8, res_height = 4, res_ySign = MinusY, res_xSign = PlusX\<rparr> \<and>
   filter (\<lambda>l. startsWith l ''FORMAT='') [''FORMAT=32-bit_rle_rgbe''] \<noteq> [] \<and>
   trim (last (filter (\<lambda>l. startsWith l ''FORMAT='') [''FORMAT=32-bit_rle_rgbe'']))
     = ''FORMAT=32-bit_rle_rgbe'' \<and>
   readHDRMetadata (''FORMAT=32-bit_rle_rgbe'' @ [newline] @ [newline] @ ''-Y 4 +X 8'')
     = Inr (8, 4) \<and>
   validatePanoramaBuffer Hdr (''FORMAT=32-bit_rle_rgbe'' @ [newline] @ [newline] @ ''-Y 4 +X 8'')
     = Inl InvalidHdrSignature"
proof -
  have h1: "list_all (\<lambda>l. newline \<notin> set l \<and> trim l \<noteq> [] \<and> ascii l) [''FORMAT=32-bit_rle_rgbe'']"
    by (simp add: newline_def trim_def is_ws_def ascii_def)
  have h2: "newline \<notin> set []" "trim [] = []" "ascii []"
    by (simp_all add: trim_def ascii_def)
  have h3: "newline \<notin> set ''-Y 4 +X 8''" "ascii ''-Y 4 +X 8''"
    by (simp_all add: newline_def ascii_def)
  have h4: "parseResolution ''-Y 4 +X 8'' =
     Some \<lparr>res_width = 8, res_height = 4, res_ySign = MinusY, res_xSign = PlusX\<rparr>"
    by (simp add: parseResolution_def trim_def is_ws_def split_ws.simps parseInt10_def
        is_digit_def digits_value_def Let_def)
  have h5: "([] :: string) = [] \<or> hd ([] :: string) = newline" by simp
  have h6: "filter (\<lambda>l. startsWith l ''FORMAT='') [''FORMAT=32-bit_rle_rgbe''] \<noteq> []"
    "trim (last (filter (\<lambda>l. startsWith l ''FORMAT='') [''FORMAT=32-bit_rle_rgbe'']))
     = ''FORMAT=32-bit_rle_rgbe''"
    by (simp_all add: startsWith_def trim_def is_ws_def)
  have sig: "\<not> startsWith (TextDecoder_decode (slice
       (''FORMAT=32-bit_rle_rgbe'' @ [newline] @ [newline] @ ''-Y 4 +X 8'') 0 4096)) HDR_SIGNATURE"
    by (simp add: startsWith_def TextDecoder_decode_def slice_def HDR_SIGNATURE_def newline_def)
  from readHDRMetadata_last_format_line [OF h1 h2(1,2,3) h3 h4 h5 h6, of
      "''FORMAT=32-bit_rle_rgbe'' @ [newline] @ [newline] @ ''-Y 4 +X 8''"] sig
  have "readHDRMetadata (''FORMAT=32-bit_rle_rgbe'' @ [newline] @ [newline] @ ''-Y 4 +X 8'')
     = Inr (8, 4) \<and>
   validatePanoramaBuffer Hdr (''FORMAT=32-bit_rle_rgbe'' @ [newline] @ [newline] @ ''-Y 4 +X 8'')
     = Inl InvalidHdrSignature" by simp
  with h1 h2 h3 h4 h6 show ?thesis by blast
qed

section \<open>Claims about the column mapping of the HDR decoder\<close>

text \<open>
  Claim C2, as stated, fails. The mirroring is the other way round: for a file that
  declares \<open>+X\<close> output column 0 of an 8-wide image reads at index 0, which is
  \<open>floor(0 \<times> 8 / 8)\<close> itself and not its mirror image 7; it is for \<open>-X\<close> that index 7 is
  read. The index is computed in double arithmetic, as
  \<open>Math.floor(x * (width / decodeWidth))\<close>: for width 30, decoded width 22 and \<open>x = 11\<close>
  the exact value \<open>11 \<times> 30 / 22\<close> is 15, but \<open>30 / 22\<close> is a double slightly below
  \<open>15 / 11\<close> and 11 times it is a double slightly below 15, so index 14 is read.

  And the index is a source column only in a row that is stored run-length encoded. A row
  in the flat format (here of width 2) is copied into the scanline buffer as it is, four
  bytes for each column, and the inner loop still reads it as four planes: output
  column 0 is built from the bytes 0, 2, 4 and 6 of the row, which is neither source
  column 0 nor source column 1.
\<close>

theorem hdr_source_column_mirror_counterexample:
  "scanline_index 8 8 PlusX 0 = 0 \<and>
   scanline_index 8 8 MinusX 0 = 8 - 1 - 0 \<and>
   \<lfloor>(0 * 8 / 8 :: rat)\<rfloor> = 0 \<and>
   scanline_index 30 22 PlusX 11 = 14 \<and>
   \<lfloor>(11 * 30 / 22 :: rat)\<rfloor> = 15 \<and>
   hdr_row [10, 20, 30, 136, 40, 50, 60, 137] 0 2 (replicate 8 0) 2 PlusX =
     Some (Inr (8, [10, 20, 30, 136, 40, 50, 60, 137],
       [Some (rgbeToLinear 10 30 40 60), Some (rgbeToLinear 20 136 50 137)])) \<and>
   flat_pixel [10, 20, 30, 136, 40, 50, 60, 137] 0 0 = rgbeToLinear 10 20 30 136 \<and>
   flat_pixel [10, 20, 30, 136, 40, 50, 60, 137] 0 1 = rgbeToLinear 40 50 60 137 \<and>
   rgbeToLinear 10 30 40 60 \<noteq> rgbeToLinear 10 20 30 136 \<and>
   rgbeToLinear 10 30 40 60 \<noteq> rgbeToLinear 40 50 60 137"
proof -
  have "scanline_index 8 8 PlusX 0 = 0 \<and>
   scanline_index 8 8 MinusX 0 = 8 - 1 - 0 \<and>
   \<lfloor>(0 * 8 / 8 :: rat)\<rfloor> = 0 \<and>
   scanline_index 30 22 PlusX 11 = 14 \<and>
   \<lfloor>(11 * 30 / 22 :: rat)\<rfloor> = 15"
    by code_simp
  moreover have "hdr_row [10, 20, 30, 136, 40, 50, 60, 137] 0 2 (replicate 8 0) 2 PlusX =
     Some (Inr (8, [10, 20, 30, 136, 40, 50, 60, 137],
       [Some (rgbeToLinear 10 30 40 60), Some (rgbeToLinear 20 136 50 137)]))"
    by code_simp
  moreover have "flat_pixel [10, 20, 30, 136, 40, 50, 60, 137] 0 0 = rgbeToLinear 10 20 30 136 \<and>
   flat_pixel [10, 20, 30, 136, 40, 50, 60, 137] 0 1 = rgbeToLinear 40 50 60 137 \<and>
   rgbeToLinear 10 30 40 60 \<noteq> rgbeToLinear 10 20 30 136 \<and>
   rgbeToLinear 10 30 40 60 \<noteq> rgbeToLinear 40 50 60 137"
    by (simp add: flat_pixel_def rgbeToLinear_def)
  ultimately show ?thesis by (simp only: simp_thms)
qed

text \<open>
  Claim C2, amended. Take a row that is stored run-length encoded (\<open>is_rle_row\<close>), widths
  below \<open>2 ^ 25\<close>, the scanline buffer of \<open>width * 4\<close> bytes that the decoder allocates, and
  an output column \<open>0 \<le> x < decodeWidth\<close>. When the row decodes, its four planes are those of
  the file (\<open>rle_row_planes\<close>, whatever the buffer held before), and the texel of output
  column \<open>x\<close> is the pixel of one source column, made of the bytes of the four planes at
  that column. The column is \<open>srcX = min(width - 1, Math.floor(x * (width / decodeWidth)))\<close>
  in double arithmetic when the resolution line declares \<open>+X\<close>, and its mirror image
  \<open>width - 1 - srcX\<close> exactly when it declares \<open>-X\<close>. \<open>srcX\<close> lies in the row, and it is
  \<open>floor(x\<cdot>width/decodeWidth)\<close>, except that it may be one less where \<open>x\<cdot>width/decodeWidth\<close>
  is an exact integer and \<open>decodeWidth\<close> does not divide \<open>width\<close>. Rows in the flat format
  are left out.
\<close>

theorem hdr_row_source_column:
  assumes "0 < decodeWidth" and "decodeWidth < 2 ^ 25" and "0 < width" and "width < 2 ^ 25"
    and "0 \<le> x" and "x < decodeWidth"
    and "t = (of_int x * of_int width / of_int decodeWidth :: rat)"
    and "length scanline = nat width * 4"
    and "is_rle_row bytes offset (nat width)"
    and "hdr_row bytes offset width scanline decodeWidth xSign = Some (Inr (offset', scanline', texels))"
  shows "\<exists>srcX planes. 0 \<le> srcX \<and> srcX \<le> width - 1 \<and>
           (srcX = \<lfloor>t\<rfloor> \<or>
            (of_int \<lfloor>t\<rfloor> = t \<and> \<not> decodeWidth dvd width \<and> srcX = \<lfloor>t\<rfloor> - 1)) \<and>
           rle_row_planes bytes offset (nat width) = Some planes \<and>
           texels ! nat x =
             Some (source_pixel planes (nat (if xSign = MinusX then width - 1 - srcX else srcX)))"
proof -
  from scanline_index_mapping [OF assms(1-7), of xSign]
  obtain srcX where s: "0 \<le> srcX" "srcX \<le> width - 1"
      "srcX = \<lfloor>t\<rfloor> \<or> (of_int \<lfloor>t\<rfloor> = t \<and> \<not> decodeWidth dvd width \<and> srcX = \<lfloor>t\<rfloor> - 1)"
      and idx: "scanline_index width decodeWidth xSign x =
             (if xSign = MinusX then width - 1 - srcX else srcX)"
    by blast
  have r: "0 \<le> scanline_index width decodeWidth xSign x"
    "scanline_index width decodeWidth xSign x < width"
    using s(1,2) unfolding idx by auto
  from assms(10) have dec: "decodeScanline bytes offset (nat width) scanline = Some (Inr (offset', scanline'))"
    and tx: "texels = map (\<lambda>x. hdr_texel scanline' width decodeWidth xSign (int x)) [0..<nat decodeWidth]"
    by (auto simp: hdr_row_def split: option.splits sum.splits)
  from decodeScanline_rle_planes [OF assms(9,8) dec]
  obtain r' g' b' e' where p: "rle_row_planes bytes offset (nat width) = Some (r', g', b', e')"
    and sl: "scanline' = r' @ g' @ b' @ e'"
    and l: "length r' = nat width" "length g' = nat width" "length b' = nat width"
      "length e' = nat width"
    by blast
  have "nat x < nat decodeWidth" using assms(5,6) by simp
  then have "texels ! nat x = hdr_texel scanline' width decodeWidth xSign (int (nat x))"
    unfolding tx by simp
  also have "int (nat x) = x" using assms(5) by simp
  also have "hdr_texel scanline' width decodeWidth xSign x
      = Some (source_pixel (r', g', b', e') (nat (scanline_index width decodeWidth xSign x)))"
    unfolding sl using l r by (rule hdr_texel_planes)
  finally have "texels ! nat x =
      Some (source_pixel (r', g', b', e') (nat (if xSign = MinusX then width - 1 - srcX else srcX)))"
    unfolding idx .
  with s p show ?thesis by blast
qed

text \<open>
  The hypotheses hold for an 8-wide row of four literal runs, decoded to width 4 under
  \<open>-X\<close>: output column 1 is source column 5, whose exponent byte is 137.
\<close>

theorem hdr_row_source_column_witness:
  "(\<exists>srcX planes. 0 \<le> srcX \<and> srcX \<le> 8 - 1 \<and>
      (srcX = \<lfloor>(of_int 1 * of_int 8 / of_int 4 :: rat)\<rfloor> \<or>
       srcX = \<lfloor>(of_int 1 * of_int 8 / of_int 4 :: rat)\<rfloor> - 1) \<and>
      rle_row_planes ([2, 2, 0, 8] @ [8, 1, 2, 3, 4, 5, 6, 7, 8]
        @ [8, 11, 12, 13, 14, 15, 16, 17, 18] @ [8, 21, 22, 23, 24, 25, 26, 27, 28]
        @ [8, 136, 136, 136, 136, 136, 137, 136, 136]) 0 (nat 8) = Some planes \<and>
      [Some (17 / 2, 37 / 2, 57 / 2), Some (13, 33, 53),
       Some (9 / 2, 29 / 2, 49 / 2), Some (5 / 2, 25 / 2, 45 / 2)] ! nat 1 =
        Some (source_pixel planes (nat (8 - 1 - srcX))))"
proof -
  let ?row = "[2, 2, 0, 8] @ [8, 1, 2, 3, 4, 5, 6, 7, 8]
        @ [8, 11, 12, 13, 14, 15, 16, 17, 18] @ [8, 21, 22, 23, 24, 25, 26, 27, 28]
        @ [8, 136, 136, 136, 136, 136, 137, 136, 136] :: byte list"
  let ?sl = "[1, 2, 3, 4, 5, 6, 7, 8, 11, 12, 13, 14, 15, 16, 17, 18,
      21, 22, 23, 24, 25, 26, 27, 28, 136, 136, 136, 136, 136, 137, 136, 136] :: byte list"
  let ?texels = "[Some (17 / 2, 37 / 2, 57 / 2), Some (13, 33, 53),
       Some (9 / 2, 29 / 2, 49 / 2), Some (5 / 2, 25 / 2, 45 / 2)] :: (rat \<times> rat \<times> rat) option list"
  have d: "decodeScanline ?row 0 8 (replicate 32 0) = Some (Inr (40, ?sl))"
    by (simp add: decodeScanline_def decodeRLEChannel_def rle_loop.simps rle_iter_def
        slice_def set_at_def fill_def Let_def and_then_def)
  have tx: "map (\<lambda>x. hdr_texel ?sl 8 4 MinusX (int x)) [0..<nat 4] = ?texels"
    by code_simp
  have run: "hdr_row ?row 0 8 (replicate 32 0) 4 MinusX = Some (Inr (40, ?sl, ?texels))"
    unfolding hdr_row_def using d tx by simp
  have rle: "is_rle_row ?row 0 (nat 8)" by (simp add: is_rle_row_def)
  have len: "length (replicate 32 (0::byte)) = nat 8 * 4" by simp
  have h: "(0::int) < 4" "(4::int) < 2 ^ 25" "(0::int) < 8" "(8::int) < 2 ^ 25"
    "(0::int) \<le> 1" "(1::int) < 4" by simp_all
  from hdr_row_source_column [OF h refl len rle run]
  obtain srcX planes where f: "0 \<le> srcX" "srcX \<le> 8 - 1"
      "srcX = \<lfloor>(of_int 1 * of_int 8 / of_int 4 :: rat)\<rfloor> \<or>
       (of_int \<lfloor>(of_int 1 * of_int 8 / of_int 4 :: rat)\<rfloor> = (of_int 1 * of_int 8 / of_int 4 :: rat) \<and>
        \<not> (4::int) dvd 8 \<and> srcX = \<lfloor>(of_int 1 * of_int 8 / of_int 4 :: rat)\<rfloor> - 1)"
      "rle_row_planes ?row 0 (nat 8) = Some planes"
      "?texels ! nat 1 =
         Some (source_pixel planes (nat (if MinusX = MinusX then 8 - 1 - srcX else srcX)))"
    by blast
  from f(3) have f3: "srcX = \<lfloor>(of_int 1 * of_int 8 / of_int 4 :: rat)\<rfloor> \<or>
       srcX = \<lfloor>(of_int 1 * of_int 8 / of_int 4 :: rat)\<rfloor> - 1" by blast
  from f(5) have f5: "?texels ! nat 1 = Some (source_pixel planes (nat (8 - 1 - srcX)))"
    by (simp only: simp_thms if_True)
  from f(1,2) f3 f(4) f5 show ?thesis by blast
qed

section \<open>Claims about the size policy\<close>

text \<open>
  Claim C4, as stated, fails where the exact product is a tie. With \<open>maxTextureSize = 300\<close>
  the limit \<open>maxDim\<close> is 300; for a 440 by 11 source the exact value of
  \<open>height \<times> maxDim / max(width, height)\<close> is \<open>11 \<times> 300 / 440 = 7.5\<close>, which rounds to 8.
  The code divides first: \<open>300 / 440\<close> is the double \<open>0.68181818181818177\<dots>\<close>, a little
  below \<open>15 / 22\<close>; 11 times it is the double \<open>7.4999999999999991\<dots>\<close>, and
  \<open>Math.round\<close> takes that to 7.
\<close>

theorem computeDecodeSize_exact_round_counterexample:
  "computeDecodeSize \<lparr>meta_format = Hdr, meta_width = 440, meta_height = 11\<rparr> Low 300 = (300, 7) \<and>
   chooseDecodeMaxDim Low 300 = 300 \<and>
   max 1 \<lfloor>(11 * min 1 (300 / max 440 11) + 1 / 2 :: rat)\<rfloor> = 8"
  by code_simp

text \<open>
  Claim C4, amended. For source dimensions from 1 up to \<open>2 ^ 25\<close>: \<open>maxDim\<close> is 1024, 2048
  or 4096 for low, medium or high, cut down to \<open>maxTextureSize\<close> and then raised to at least
  256 (so it lies in \<open>[256, maxTextureSize]\<close> whenever that interval is not empty). Each
  decoded dimension is at least 1 and at most the source dimension, and equals the source
  dimension when the source fits into \<open>maxDim\<close>. It is computed in double arithmetic as
  \<open>max(1, Math.round(dimension \<times> scale))\<close> with \<open>scale\<close> the double quotient
  \<open>maxDim / max(width, height)\<close>; that is the exact value
  \<open>round(dimension \<times> min(1, maxDim / max(width, height)))\<close>, floored to 1, except that
  where the exact product is a tie (an integer plus one half) the result may be the integer
  below instead of the one above. A 4096 by 2048 source at low quality with
  \<open>maxTextureSize = 4096\<close> gives 1024 by 512.
\<close>

theorem computeDecodeSize_policy:
  assumes "1 \<le> meta_width meta" and "meta_width meta < 2 ^ 25"
    and "1 \<le> meta_height meta" and "meta_height meta < 2 ^ 25"
    and "computeDecodeSize meta quality maxTextureSize = (decodeWidth, decodeHeight)"
    and "maxDim = chooseDecodeMaxDim quality maxTextureSize"
    and "srcMax = max (meta_width meta) (meta_height meta)"
    and "tw = (of_int (meta_width meta) * min 1 (of_int maxDim / of_int srcMax) :: rat)"
    and "th = (of_int (meta_height meta) * min 1 (of_int maxDim / of_int srcMax) :: rat)"
  shows
    "maxDim = max 256 (min (case quality of Low \<Rightarrow> 1024 | Medium \<Rightarrow> 2048 | High \<Rightarrow> 4096)
                maxTextureSize) \<and>
     (256 \<le> maxTextureSize \<longrightarrow> 256 \<le> maxDim \<and> maxDim \<le> maxTextureSize) \<and>
     1 \<le> decodeWidth \<and> decodeWidth \<le> meta_width meta \<and>
     1 \<le> decodeHeight \<and> decodeHeight \<le> meta_height meta \<and>
     (srcMax \<le> maxDim \<longrightarrow> decodeWidth = meta_width meta \<and> decodeHeight = meta_height meta) \<and>
     (decodeWidth = max 1 \<lfloor>tw + 1 / 2\<rfloor> \<or>
      (of_int \<lfloor>tw + 1 / 2\<rfloor> = tw + 1 / 2 \<and> decodeWidth = max 1 (\<lfloor>tw + 1 / 2\<rfloor> - 1))) \<and>
     (decodeHeight = max 1 \<lfloor>th + 1 / 2\<rfloor> \<or>
      (of_int \<lfloor>th + 1 / 2\<rfloor> = th + 1 / 2 \<and> decodeHeight = max 1 (\<lfloor>th + 1 / 2\<rfloor> - 1))) \<and>
     computeDecodeSize \<lparr>meta_format = Exr, meta_width = 4096, meta_height = 2048\<rparr> Low 4096
       = (1024, 512)"
proof -
  have a: "maxDim = max 256 (min (case quality of Low \<Rightarrow> 1024 | Medium \<Rightarrow> 2048 | High \<Rightarrow> 4096)
                maxTextureSize)"
    by (cases quality) (simp_all add: assms(6) chooseDecodeMaxDim_def)
  then have b: "256 \<le> maxTextureSize \<longrightarrow> 256 \<le> maxDim \<and> maxDim \<le> maxTextureSize"
    by (cases quality) auto
  have m: "256 \<le> maxDim" unfolding assms(6) by (rule chooseDecodeMaxDim_range)
  have s: "srcMax < 2 ^ 25" using assms(2,4,7) by simp
  have ws: "meta_width meta \<le> srcMax" and hs: "meta_height meta \<le> srcMax"
    using assms(7) by simp_all
  have dw: "decodeWidth = max 1 (Math_round (js_mul (of_int (meta_width meta))
      (if srcMax > maxDim then js_div (of_int maxDim) (of_int srcMax) else 1)))"
    and dh: "decodeHeight = max 1 (Math_round (js_mul (of_int (meta_height meta))
      (if srcMax > maxDim then js_div (of_int maxDim) (of_int srcMax) else 1)))"
    using assms(5) by (auto simp: computeDecodeSize_def Let_def assms(6,7))
  note w = scaled_dim [OF assms(1) ws s m, folded dw assms(8)]
  note h = scaled_dim [OF assms(3) hs s m, folded dh assms(9)]
  have same: "srcMax \<le> maxDim \<longrightarrow> decodeWidth = meta_width meta \<and> decodeHeight = meta_height meta"
  proof
    assume le: "srcMax \<le> maxDim"
    have "fl (of_int (meta_width meta)) = of_int (meta_width meta)"
      using assms(1,2) by (intro fl_of_int) simp_all
    moreover have "fl (of_int (meta_height meta)) = of_int (meta_height meta)"
      using assms(3,4) by (intro fl_of_int) simp_all
    ultimately show "decodeWidth = meta_width meta \<and> decodeHeight = meta_height meta"
      using le assms(1,3) by (simp add: dw dh js_mul_def)
  qed
  have ex: "computeDecodeSize \<lparr>meta_format = Exr, meta_width = 4096, meta_height = 2048\<rparr> Low 4096
       = (1024, 512)"
    by code_simp
  from a b w h same ex show ?thesis by blast
qed

theorem computeDecodeSize_policy_witness:
  "(1::int) \<le> meta_width \<lparr>meta_format = Hdr, meta_width = 440, meta_height = 11\<rparr> \<and>
   meta_width \<lparr>meta_format = Hdr, meta_width = 440, meta_height = 11\<rparr> < 2 ^ 25 \<and>
   (1::int) \<le> meta_height \<lparr>meta_format = Hdr, meta_width = 440, meta_height = 11\<rparr> \<and>
   meta_height \<lparr>meta_format = Hdr, meta_width = 440, meta_height = 11\<rparr> < 2 ^ 25 \<and>
   computeDecodeSize \<lparr>meta_format = Hdr, meta_width = 440, meta_height = 11\<rparr> Low 300 = (300, 7) \<and>
   (256::int) \<le> 300 \<and> chooseDecodeMaxDim Low 300 = 300 \<and>
   (300::int) \<le> 440 \<and> (7::int) \<le> 11"
proof -
  let ?m = "\<lparr>meta_format = Hdr, meta_width = 440, meta_height = 11\<rparr>"
  have h1: "1 \<le> meta_width ?m" and h2: "meta_width ?m < 2 ^ 25"
    and h3: "1 \<le> meta_height ?m" and h4: "meta_height ?m < 2 ^ 25" by simp_all
  have h5: "computeDecodeSize ?m Low 300 = (300, 7)" by code_simp
  have h6: "(256::int) \<le> 300" by simp
  from computeDecodeSize_policy [OF h1 h2 h3 h4 h5 refl refl refl refl] h6
  have "256 \<le> chooseDecodeMaxDim Low 300 \<and> chooseDecodeMaxDim Low 300 \<le> 300 \<and>
        (300::int) \<le> meta_width ?m \<and> (7::int) \<le> meta_height ?m"
    by blast
  moreover have "chooseDecodeMaxDim Low 300 = 300" by (simp add: chooseDecodeMaxDim_def)
  ultimately show ?thesis using h1 h2 h3 h4 h5 h6 by simp
qed

section \<open>Claims about the EXR channel selection\<close>



section \<open>Claims about the decode orchestrator\<close>

text \<open>
  Claim C6 holds in its first half (see \<open>decode_supersedes\<close>: the prior promise is rejected
  with "Decode request replaced" and its entry deleted before the new entry is set and the
  request posted). Its second half fails on the code. The table is keyed by the id alone,
  so the answer to the superseded request, which the worker still produces and which
  carries the same id, finds the new entry and settles the new promise.

  Here the first request has an empty buffer, for which the worker answers
  "Unsupported HDR format"; the second request, with the same id, has a valid header. The
  second promise is rejected with the first request's error, and the entry is gone, so the
  answer to the second request will be dropped.
\<close>

theorem decode_stale_answer_settles_new_entry:
  "(let first = \<lparr>req_id = ''a'', req_format = Hdr, req_buffer = [], req_quality = Low,
                   req_maxTextureSize = 4096, req_target = Rgb16f\<rparr>;
        second = \<lparr>req_id = ''a'', req_format = Hdr,
                    req_buffer = ''#?RADIANCE'' @ [newline] @ ''FORMAT=32-bit_rle_rgbe'' @
                      [newline] @ [newline] @ ''-Y 1 +X 1'' @ [newline] @ ''abcd'',
                    req_quality = Low, req_maxTextureSize = 4096, req_target = Rgb16f\<rparr>;
        (h1, c1) = decode new_client first;
        (h2, c2) = decode c1 second;
        c3 = onmessage c2 (worker_error_reply first UnsupportedFormat)
    in readHDRMetadata (req_buffer first) = Inl UnsupportedFormat \<and>
       readHDRMetadata (req_buffer second) = Inr (1, 1) \<and>
       settled c2 h1 = Some (Rejected ''Decode request replaced'') \<and>
       pending c2 ''a'' = Some h2 \<and> settled c2 h2 = None \<and>
       settled c3 h2 = Some (Rejected ''Unsupported HDR format'') \<and>
       pending c3 ''a'' = None)"
  by (simp add: client_eval readHDRMetadata_def header_loop.simps readLine_def newline_def
      slice_def TextDecoder_decode_def format_flag_def startsWith_def trim_def is_ws_def
      parseResolution_def split_ws.simps parseInt10_def is_digit_def digits_value_def)

section \<open>Claims about the half-float codec\<close>

text \<open>
  Claim C1 as stated fails on the code in three ways.

  The pattern \<open>0x3F801000\<close> stands for \<open>2049 / 2048\<close>, midway between the binary16 values
  \<open>1\<close> (\<open>0x3c00\<close>, even mantissa) and \<open>1025 / 1024\<close> (\<open>0x3c01\<close>, odd mantissa): \<open>floatToHalf\<close>
  adds the round bit whatever the bits below it and the last kept bit are, and returns the
  odd \<open>0x3c01\<close>.

  The pattern \<open>0x33000001\<close> has exponent \<open>-25\<close> and lies above \<open>2 ^ -25\<close>, so the smallest
  subnormal \<open>0x0001\<close> is nearer to it than zero: the guard \<open>exp < -24\<close> returns zero.

  The pattern \<open>0x3FFFF000\<close> stands for \<open>4095 / 2048\<close>. The rounded mantissa is 1024, and
  its bit 10 is combined by \<open>|\<close> with the exponent field 15, which has that bit set
  already: the result is \<open>0x3c00\<close>, the value \<open>1\<close>, where \<open>0x4000\<close>, the value \<open>2\<close>, is
  nearer.
\<close>

theorem floatToHalf_nearest_even_counterexample:
  "float32_value 0x3F801000 = Num (2049 / 2048) \<and>
   floatToHalf 0x3F801000 = 0x3c01 \<and>
   halfToFloat 0x3c01 = Num (1025 / 1024) \<and> halfToFloat 0x3c00 = Num 1 \<and>
   half_error 0x3F801000 0x3c00 = half_error 0x3F801000 0x3c01 \<and>
   float32_value 0x33000001 = Num (8388609 * 2 powi (- 48)) \<and>
   floatToHalf 0x33000001 = 0 \<and>
   halfToFloat 1 = Num (2 powi (- 24)) \<and>
   half_error 0x33000001 1 < half_error 0x33000001 0 \<and>
   float32_value 0x3FFFF000 = Num (4095 / 2048) \<and>
   floatToHalf 0x3FFFF000 = 0x3c00 \<and>
   halfToFloat 0x4000 = Num 2 \<and>
   half_error 0x3FFFF000 0x4000 < half_error 0x3FFFF000 0x3c00"
  by (simp add: float32_value_def floatToHalf_def halfToFloat_def half_error_def)

text \<open>
  Claim C1, amended. \<open>floatToHalf\<close> keeps the sign bit of every pattern. NaN becomes
  \<open>0x7e00\<close> under the sign and an infinity \<open>0x7c00\<close> under the sign; an exponent above 15
  gives the infinity of the sign; an exponent below \<open>-24\<close> (every zero and every subnormal
  binary32 among them) gives the zero of the sign. For an exponent from \<open>-24\<close> to 15 the
  result stands for the magnitude rounded to the nearest multiple of the binary16 spacing
  at that exponent, a tie going away from zero, with the sign of the input: a binary16
  subnormal below \<open>2 ^ -14\<close>, and the infinity of the sign where the rounded magnitude is
  65536. This last part is stated for the inputs at which the carry out of the rounded
  mantissa is not lost to \<open>|\<close>.
\<close>

theorem floatToHalf_rounding:
  "unat (floatToHalf x) div 2 ^ 15 = f32_sign x \<and>
   (f32_exp x = 255 \<longrightarrow>
      unat (floatToHalf x) = f32_sign x * 2 ^ 15 + (if f32_frac x \<noteq> 0 then 0x7e00 else 0x7c00)) \<and>
   (f32_exp x < 103 \<longrightarrow> unat (floatToHalf x) = f32_sign x * 2 ^ 15) \<and>
   (142 < f32_exp x \<and> f32_exp x < 255 \<longrightarrow> unat (floatToHalf x) = f32_sign x * 2 ^ 15 + 0x7c00) \<and>
   (103 \<le> f32_exp x \<and> f32_exp x \<le> 142 \<and> \<not> carry_lost x \<longrightarrow>
      halfToFloat (floatToHalf x) =
        (let r = round_half_up (half_spacing x) (f32_magnitude x)
         in if 65536 \<le> r then (if f32_sign x \<noteq> 0 then NegInfinity else PosInfinity)
            else Num (signed (f32_sign x) r)))"
proof (intro conjI impI)
  show "unat (floatToHalf x) div 2 ^ 15 = f32_sign x"
    unfolding floatToHalf_unat by (rule floatToHalf_fields_sign) (rule f32_field_bounds)+
next
  assume "f32_exp x = 255"
  then show "unat (floatToHalf x) =
      f32_sign x * 2 ^ 15 + (if f32_frac x \<noteq> 0 then 0x7e00 else 0x7c00)"
    unfolding floatToHalf_unat floatToHalf_fields_def by simp
next
  assume "f32_exp x < 103"
  then show "unat (floatToHalf x) = f32_sign x * 2 ^ 15"
    unfolding floatToHalf_unat floatToHalf_fields_def by simp
next
  assume "142 < f32_exp x \<and> f32_exp x < 255"
  then show "unat (floatToHalf x) = f32_sign x * 2 ^ 15 + 0x7c00"
    unfolding floatToHalf_unat floatToHalf_fields_def by simp
next
  assume a: "103 \<le> f32_exp x \<and> f32_exp x \<le> 142 \<and> \<not> carry_lost x"
  show "halfToFloat (floatToHalf x) =
        (let r = round_half_up (half_spacing x) (f32_magnitude x)
         in if 65536 \<le> r then (if f32_sign x \<noteq> 0 then NegInfinity else PosInfinity)
            else Num (signed (f32_sign x) r))"
  proof (cases "113 \<le> f32_exp x")
    case True
    have sp: "half_spacing x = 2 powi (int (f32_exp x) - 137)"
      using True by (simp add: half_spacing_def max_def)
    have mg: "f32_magnitude x = of_nat (2 ^ 23 + f32_frac x) * 2 powi (int (f32_exp x) - 150)"
      using True by (simp add: f32_magnitude_def)
    have nc: "\<not> (f32_frac x div 2 ^ 13 + f32_frac x div 2 ^ 12 mod 2 = 1024
                \<and> odd (f32_exp x - 112))"
      using a True by (simp add: carry_lost_def Let_def)
    show ?thesis
      unfolding Let_def round_half_up_def sp mg
      using True _ f32_field_bounds(3) f32_field_bounds(1) floatToHalf_unat nc
      by (rule normal_rounding) (use a in simp)
  next
    case False
    then have e: "f32_exp x \<le> 112" by simp
    have sp: "half_spacing x = 2 powi (- 24)"
      using e by (simp add: half_spacing_def max_def)
    have mg: "f32_magnitude x = of_nat (2 ^ 23 + f32_frac x) * 2 powi (int (f32_exp x) - 150)"
      using a by (simp add: f32_magnitude_def)
    have l: "103 \<le> f32_exp x" using a by simp
    note R = subnormal_rounding [OF l e f32_field_bounds(3) f32_field_bounds(1) floatToHalf_unat]
    show ?thesis
      unfolding Let_def round_half_up_def sp mg using R by simp
  qed
qed

text \<open>
  The hypotheses hold at \<open>0x3F801000\<close> (rounded up to \<open>1025 / 1024\<close>), at a NaN, at \<open>-0\<close>
  and at \<open>65536\<close>.
\<close>

theorem floatToHalf_rounding_witness:
  "f32_exp 0x3F801000 = 127 \<and> \<not> carry_lost 0x3F801000 \<and>
   round_half_up (half_spacing 0x3F801000) (f32_magnitude 0x3F801000) = 1025 / 1024 \<and>
   halfToFloat (floatToHalf 0x3F801000) = Num (1025 / 1024) \<and>
   f32_exp 0x7FC00000 = 255 \<and> unat (floatToHalf 0x7FC00000) = 0x7e00 \<and>
   f32_exp 0x80000000 = 0 \<and> unat (floatToHalf 0x80000000) = 0x8000 \<and>
   f32_exp 0x47800000 = 143 \<and> unat (floatToHalf 0x47800000) = 0x7c00"
proof -
  have f: "f32_exp 0x3F801000 = 127" "f32_frac 0x3F801000 = 4096" "f32_sign 0x3F801000 = 0"
    "f32_exp 0x7FC00000 = 255" "f32_frac 0x7FC00000 = 4194304" "f32_sign 0x7FC00000 = 0"
    "f32_exp 0x80000000 = 0" "f32_sign 0x80000000 = 1"
    "f32_exp 0x47800000 = 143" "f32_sign 0x47800000 = 0"
    by (simp_all add: f32_exp_def f32_frac_def f32_sign_def)
  have r: "round_half_up (half_spacing 0x3F801000) (f32_magnitude 0x3F801000) = 1025 / 1024"
    by (simp add: round_half_up_def half_spacing_def f32_magnitude_def Let_def f)
  have c: "\<not> carry_lost 0x3F801000" by (simp add: carry_lost_def Let_def f)
  show ?thesis
    using floatToHalf_rounding [of "0x3F801000"] floatToHalf_rounding [of "0x7FC00000"]
      floatToHalf_rounding [of "0x80000000"] floatToHalf_rounding [of "0x47800000"]
    by (simp add: f r c signed_def)
qed

text \<open>
  Claim C3. The binary32 patterns that are exactly representable in binary16 are given by
  \<open>half_exact\<close>, a condition on the binary32 fields alone: a zero of either sign, an
  exponent from \<open>-14\<close> to \<open>15\<close> with a fraction whose low 13 bits are zero (the normals), or
  an exponent from \<open>-24\<close> to \<open>-15\<close> with a significand that is a multiple of \<open>2 ^ -24\<close> (the
  subnormals). By \<open>half_exact_iff_binary16\<close> these are the finite patterns whose value is
  the value of binary16 fields. Every such pattern is reproduced by
  \<open>halfToFloat (floatToHalf x)\<close>, the sign of zero included. \<open>floatToHalf\<close> maps \<open>+\<infinity>\<close> to
  \<open>0x7c00\<close>, \<open>-\<infinity>\<close> to \<open>0xfc00\<close> and every NaN to \<open>0x7e00\<close> or \<open>0xfe00\<close>, and \<open>halfToFloat\<close>
  maps these patterns back to \<open>+\<infinity>\<close>, \<open>-\<infinity>\<close> and NaN.
\<close>

theorem half_round_trip:
  "(half_exact x \<longrightarrow> halfToFloat (floatToHalf x) = float32_value x) \<and>
   (float32_value x = PosInfinity \<longrightarrow> floatToHalf x = 0x7c00) \<and>
   (float32_value x = NegInfinity \<longrightarrow> floatToHalf x = 0xfc00) \<and>
   (float32_value x = NaN \<longrightarrow>
      (floatToHalf x = 0x7e00 \<or> floatToHalf x = 0xfe00) \<and> halfToFloat (floatToHalf x) = NaN) \<and>
   halfToFloat 0x7c00 = PosInfinity \<and> halfToFloat 0xfc00 = NegInfinity \<and>
   halfToFloat 0x7e00 = NaN \<and> halfToFloat 0xfe00 = NaN"
proof (intro conjI impI)
  assume "half_exact x"
  then show "halfToFloat (floatToHalf x) = float32_value x" by (rule half_exact_round_trip)
next
  assume "float32_value x = PosInfinity"
  then show "floatToHalf x = 0x7c00"
    by (simp add: float32_value_nonfinite floatToHalf_infinity)
next
  assume "float32_value x = NegInfinity"
  then show "floatToHalf x = 0xfc00"
    by (simp add: float32_value_nonfinite floatToHalf_infinity)
next
  assume n: "float32_value x = NaN"
  then show "floatToHalf x = 0x7e00 \<or> floatToHalf x = 0xfe00"
    by (simp add: float32_value_nonfinite floatToHalf_nan)
  from n have "f32_exp x = 255" by (simp add: float32_value_nonfinite)
  then show "halfToFloat (floatToHalf x) = NaN" unfolding n [symmetric] by (rule nonfinite_round_trip)
qed (simp_all add: halfToFloat_def)

text \<open>
  The hypotheses hold at \<open>1.5\<close>, at the smallest subnormal \<open>2 ^ -24\<close>, at the largest
  subnormal \<open>1023 \<times> 2 ^ -24\<close>, at \<open>-0\<close> and \<open>+0\<close>, at the largest normal 65504, at the two
  infinities and at a NaN with a payload.
\<close>

theorem half_round_trip_witness:
  "half_exact 0x3FC00000 \<and> float32_value 0x3FC00000 = Num (3 / 2) \<and>
   halfToFloat (floatToHalf 0x3FC00000) = Num (3 / 2) \<and>
   half_exact 0x33800000 \<and> float32_value 0x33800000 = Num (2 powi (- 24)) \<and>
   halfToFloat (floatToHalf 0x33800000) = Num (2 powi (- 24)) \<and>
   half_exact 0x387FC000 \<and> float32_value 0x387FC000 = Num (1023 * 2 powi (- 24)) \<and>
   halfToFloat (floatToHalf 0x387FC000) = Num (1023 * 2 powi (- 24)) \<and>
   half_exact 0x80000000 \<and> float32_value 0x80000000 = NegZero \<and>
   halfToFloat (floatToHalf 0x80000000) = NegZero \<and>
   half_exact 0 \<and> float32_value 0 = Num 0 \<and> halfToFloat (floatToHalf 0) = Num 0 \<and>
   half_exact 0x477FE000 \<and> float32_value 0x477FE000 = Num 65504 \<and>
   halfToFloat (floatToHalf 0x477FE000) = Num 65504 \<and>
   float32_value 0x7F800000 = PosInfinity \<and> floatToHalf 0x7F800000 = 0x7c00 \<and>
   float32_value 0xFF800000 = NegInfinity \<and> floatToHalf 0xFF800000 = 0xfc00 \<and>
   float32_value 0x7FC00001 = NaN \<and> halfToFloat (floatToHalf 0x7FC00001) = NaN"
proof -
  have e: "half_exact 0x3FC00000" "half_exact 0x33800000" "half_exact 0x387FC000"
    "half_exact 0x80000000" "half_exact 0" "half_exact 0x477FE000"
    by (simp_all add: half_exact_def f32_exp_def f32_frac_def)
  have v: "float32_value 0x3FC00000 = Num (3 / 2)"
    "float32_value 0x33800000 = Num (2 powi (- 24))"
    "float32_value 0x387FC000 = Num (1023 * 2 powi (- 24))"
    "float32_value 0x80000000 = NegZero" "float32_value 0 = Num 0"
    "float32_value 0x477FE000 = Num 65504"
    "float32_value 0x7F800000 = PosInfinity" "float32_value 0xFF800000 = NegInfinity"
    "float32_value 0x7FC00001 = NaN"
    by (simp_all add: float32_value_def)
  show ?thesis
    using half_round_trip [of "0x3FC00000"] half_round_trip [of "0x33800000"]
      half_round_trip [of "0x387FC000"] half_round_trip [of "0x80000000"]
      half_round_trip [of 0] half_round_trip [of "0x477FE000"]
      half_round_trip [of "0x7F800000"] half_round_trip [of "0xFF800000"]
      half_round_trip [of "0x7FC00001"]
    by (simp add: e v)
qed

section \<open>Claims about the EXR zip transform\<close>



end
